theory Spec2Isabelle
  imports Complex_Main "HOL-Library.AList" "HOL-Library.Sublist"
begin

section \<open>JavaScript values\<close>

text \<open>
  The prompt structure is plain data, as \<open>JSON.parse\<close> builds it: \<open>null\<close>, booleans,
  numbers, strings, arrays and objects, and \<open>undefined\<close> for what is absent. A number
  is opaque to the code under study except for the tests that JavaScript itself
  performs on it (zero and \<open>NaN\<close> are falsy, \<open>NaN\<close> and the infinities do not survive
  JSON serialisation), so a finite number is kept as a rational. An object is the list
  of its own enumerable properties in the order in which \<open>for ... in\<close> and
  \<open>Object.keys\<close> enumerate them; an array is the list of its elements, without holes.
  A string is the list of its code units. Functions, symbols, accessors and objects
  with a prototype of their own are not plain data and have no value here.
\<close>

datatype jsnum = Finite rat | NaN | PosInfinity | NegInfinity

datatype jsval =
    JUndefined
  | JNull
  | JBool bool
  | JNum jsnum
  | JStr string
  | JArr "jsval list"
  | JObj "(string \<times> jsval) list"

datatype jstype = TUndefined | TObject | TBoolean | TNumber | TString

text \<open>The \<open>typeof\<close> operator; \<open>typeof null\<close> is \<open>'object'\<close>.\<close>

fun typeof :: "jsval \<Rightarrow> jstype" where
  "typeof JUndefined = TUndefined"
| "typeof JNull = TObject"
| "typeof (JBool b) = TBoolean"
| "typeof (JNum n) = TNumber"
| "typeof (JStr s) = TString"
| "typeof (JArr xs) = TObject"
| "typeof (JObj ps) = TObject"

section \<open>Exceptions\<close>

text \<open>
  The exceptions that the platform raises in this program, as values. The string is the
  message, which only tells them apart here. \<open>Unallocated\<close> is no JavaScript
  exception: it is the result of following a reference that is not a cell of the heap,
  which no JavaScript program can hold.
\<close>

datatype exn = TypeError string | SyntaxError string | RangeError string | Unallocated nat

text \<open>\<open>Array.isArray\<close>, and \<open>.length\<close> as it is read behind an \<open>Array.isArray\<close> test.\<close>

fun isArray :: "jsval \<Rightarrow> bool" where
  "isArray (JArr xs) = True"
| "isArray v = False"

fun array_length :: "jsval \<Rightarrow> nat" where
  "array_length (JArr xs) = length xs"
| "array_length v = 0"

text \<open>
  \<open>Object.keys\<close>. It throws a \<open>TypeError\<close> on \<open>null\<close> and \<open>undefined\<close>;
  the keys of an array and of a string are their indices in decimal, and a number or a
  boolean has none.
\<close>

fun show_nat :: "nat \<Rightarrow> string" where
  "show_nat n =
     (if n < 10 then [''0123456789'' ! n]
      else show_nat (n div 10) @ [''0123456789'' ! (n mod 10)])"

declare show_nat.simps [simp del]

fun object_keys :: "jsval \<Rightarrow> exn + string list" where
  "object_keys JUndefined = Inl (TypeError ''Cannot convert undefined or null to object'')"
| "object_keys JNull = Inl (TypeError ''Cannot convert undefined or null to object'')"
| "object_keys (JBool b) = Inr []"
| "object_keys (JNum n) = Inr []"
| "object_keys (JStr s) = Inr (map show_nat [0..<length s])"
| "object_keys (JArr xs) = Inr (map show_nat [0..<length xs])"
| "object_keys (JObj ps) = Inr (map fst ps)"

text \<open>
  \<open>Object.keys(v).length\<close>, with \<open>None\<close> where \<open>Object.keys\<close> throws.
\<close>

definition keys_count :: "jsval \<Rightarrow> nat option" where
  "keys_count v = (case object_keys v of Inl e \<Rightarrow> None | Inr ks \<Rightarrow> Some (length ks))"

lemma keys_count_simps [simp]:
  "keys_count JUndefined = None"
  "keys_count JNull = None"
  "keys_count (JBool b) = Some 0"
  "keys_count (JNum n) = Some 0"
  "keys_count (JStr s) = Some (length s)"
  "keys_count (JArr xs) = Some (length xs)"
  "keys_count (JObj ps) = Some (length ps)"
  by (simp_all add: keys_count_def)

section \<open>Settings\<close>

record settings =
  enabled :: bool
  verboseLogging :: bool
  logToFile :: bool
  logFilePath :: string
  filterOutEmptyFields :: bool

definition defaultSettings :: settings where
  "defaultSettings =
     \<lparr>enabled = True, verboseLogging = False, logToFile = False, logFilePath = '''',
      filterOutEmptyFields = True\<rparr>"

section \<open>The sanitizer on plain data\<close>

text \<open>
  \<open>cleanObject\<close> (index.js, lines 44 to 87) reads the flag \<open>filterOutEmptyFields\<close> of
  the shared settings at every call, the recursive ones included; the settings are a
  parameter here. The two arrow functions are the arguments of \<open>filter\<close> and \<open>map\<close>;
  the \<open>for ... in\<close> loop is a \<open>fold\<close> over the properties with \<open>newObj\<close> as the
  accumulator. The assignment \<open>newObj[key] = v\<close> is \<open>AList.update\<close>: it replaces the
  value of a key that is there and appends a new key. The call stack is unbounded here;
  the heap model below bounds it.
\<close>

fun cleanObject :: "settings \<Rightarrow> jsval \<Rightarrow> jsval" where
  "cleanObject s (JArr items) =
     (if \<not> filterOutEmptyFields s then JArr items
      else JArr (map (\<lambda>item. if typeof item = TObject then cleanObject s item else item)
        (filter (\<lambda>item.
            if item = JNull \<or> item = JUndefined then False
            else if typeof item = TObject \<and> keys_count (cleanObject s item) = Some 0 then False
            else if isArray item \<and> array_length item = 0 then False
            else True) items)))"
| "cleanObject s (JObj props) =
     (if \<not> filterOutEmptyFields s then JObj props
      else JObj (fold (\<lambda>(key, val) newObj.
          if val = JNull \<or> val = JUndefined then newObj
          else if typeof val = TObject then
            (let cleaned = cleanObject s val in
             if (case keys_count cleaned of Some n \<Rightarrow> 0 < n | None \<Rightarrow> False)
                \<or> isArray cleaned \<and> 0 < array_length cleaned
             then AList.update key cleaned newObj else newObj)
          else if val \<noteq> JStr '''' then AList.update key val newObj
          else newObj) props []))"
| "cleanObject s obj = obj"

text \<open>
  Plain data, which the theorems about the reporter take as their structurally valid
  inputs. The property names of an object are distinct, as they are in every
  JavaScript object, and none of them is \<open>__proto__\<close>: JavaScript's
  \<open>newObj['__proto__'] = v\<close> sets the prototype of \<open>newObj\<close> and creates no
  property, which the objects of this section, having no prototype of their own,
  cannot follow. On plain data the function above is the code (theorem
  \<open>cleanObjectP_embed\<close> below); the next section has the sanitizer on every object
  that \<open>JSON.parse\<close> builds.
\<close>

fun plain_data :: "jsval \<Rightarrow> bool" where
  "plain_data (JArr items) = (\<forall>item \<in> set items. plain_data item)"
| "plain_data (JObj props) =
     (distinct (map fst props) \<and> ''__proto__'' \<notin> fst ` set props \<and>
      (\<forall>p \<in> set props. plain_data (snd p)))"
| "plain_data v = True"

section \<open>The sanitizer on objects with a prototype\<close>

text \<open>
  A JavaScript object has a prototype. The loop \<open>for (const key in obj)\<close> visits the
  enumerable properties of \<open>obj\<close> and then those of its prototype chain that no
  earlier object of the chain has, and \<open>obj[key]\<close> reads the first property of that
  name on the chain. For the name \<open>__proto__\<close> the assignment \<open>newObj[key] = v\<close>
  creates no property when no object of the chain has one of that name: it reaches the
  setter of \<open>Object.prototype\<close>, which makes \<open>v\<close> the prototype of \<open>newObj\<close> when \<open>v\<close>
  is an object or \<open>null\<close>, and does nothing when \<open>v\<close> is any other value.
  \<open>JSON.parse\<close> defines every name of its text as an own property, \<open>__proto__\<close>
  included, so the copy that the reporter hands to \<open>cleanObject\<close> can hold one.

  The values of this section are those of the first one with a prototype in every
  object: \<open>None\<close> is \<open>Object.prototype\<close>, which has no enumerable property, and
  \<open>Some p\<close> is the value \<open>p\<close>, an array, an object or \<open>null\<close> (no prototype). The
  list of an object holds its own properties in the order of their creation; a name
  that occurs twice counts once, with its first value. An array has the prototype
  \<open>Array.prototype\<close>, which has no enumerable property and inherits from
  \<open>Object.prototype\<close>. (JavaScript enumerates the names that are array indices before
  the others; the order of the lists is the order of enumeration as long as no object
  inherits such a name. No statement below depends on the order of such names.)
\<close>

datatype pval =
    PUndefined
  | PNull
  | PBool bool
  | PNum jsnum
  | PStr string
  | PArr "pval list"
  | PObj "(string \<times> pval) list" "pval option"

fun typeofP :: "pval \<Rightarrow> jstype" where
  "typeofP PUndefined = TUndefined"
| "typeofP PNull = TObject"
| "typeofP (PBool b) = TBoolean"
| "typeofP (PNum n) = TNumber"
| "typeofP (PStr str) = TString"
| "typeofP (PArr items) = TObject"
| "typeofP (PObj props proto) = TObject"

fun isArrayP :: "pval \<Rightarrow> bool" where
  "isArrayP (PArr items) = True"
| "isArrayP v = False"

fun array_lengthP :: "pval \<Rightarrow> nat" where
  "array_lengthP (PArr items) = length items"
| "array_lengthP v = 0"

text \<open>
  \<open>Object.keys(v).length\<close>, with \<open>None\<close> where \<open>Object.keys\<close> throws: the own
  enumerable properties count, the inherited ones do not.
\<close>

fun keys_countP :: "pval \<Rightarrow> nat option" where
  "keys_countP PUndefined = None"
| "keys_countP PNull = None"
| "keys_countP (PBool b) = Some 0"
| "keys_countP (PNum n) = Some 0"
| "keys_countP (PStr str) = Some (length str)"
| "keys_countP (PArr items) = Some (length items)"
| "keys_countP (PObj props proto) = Some (length (AList.clearjunk props))"

text \<open>
  The properties that \<open>for (const key in obj)\<close> visits, each with the value that
  \<open>obj[key]\<close> reads: the own properties first, then those of the prototype chain, a
  name once (\<open>AList.clearjunk\<close> keeps the first property of every name).
\<close>

fun for_inP :: "pval \<Rightarrow> (string \<times> pval) list" where
  "for_inP (PArr items) = zip (map show_nat [0..<length items]) items"
| "for_inP (PObj props proto) =
     AList.clearjunk (props @ (case proto of None \<Rightarrow> [] | Some p \<Rightarrow> for_inP p))"
| "for_inP v = []"

text \<open>Whether \<open>Object.prototype\<close>, which has the setter, is on the prototype chain.\<close>

fun inherits_setter :: "pval \<Rightarrow> bool" where
  "inherits_setter (PArr items) = True"
| "inherits_setter (PObj props proto) =
     (case proto of None \<Rightarrow> True | Some p \<Rightarrow> inherits_setter p)"
| "inherits_setter v = False"

text \<open>
  The assignment \<open>newObj[key] = v\<close>. The setter is reached for the name \<open>__proto__\<close>
  when no object of the chain has a property of that name; every other assignment
  replaces the value of the own property or creates the own property.
\<close>

fun assign :: "string \<Rightarrow> pval \<Rightarrow> pval \<Rightarrow> pval" where
  "assign key v (PObj props proto) =
     (if key = ''__proto__'' \<and> key \<notin> fst ` set (for_inP (PObj props proto))
         \<and> inherits_setter (PObj props proto)
      then (if typeofP v = TObject then PObj props (Some v) else PObj props proto)
      else PObj (AList.update key v props) proto)"
| "assign key v obj = obj"

text \<open>What the loop visits is smaller than the object: the recursion ends.\<close>

lemma clearjunk_subset: "set (AList.clearjunk al) \<subseteq> set al"
  by (induction al rule: AList.clearjunk.induct) (auto simp: AList.delete_eq)

lemma size_member: "(x::pval) \<in> set xs \<Longrightarrow> size x < Suc (size_list size xs)"
  by (induction xs) auto

lemma for_inP_size: "(k, v) \<in> set (for_inP x) \<Longrightarrow> size v < size x"
proof (induction x arbitrary: k v rule: for_inP.induct)
  case (1 items)
  then have "v \<in> set items" by (auto dest: set_zip_rightD)
  then show ?case using size_member[of v items] by simp
next
  case (2 props proto)
  have "(k, v) \<in> set (AList.clearjunk (props @ (case proto of None \<Rightarrow> [] | Some p \<Rightarrow> for_inP p)))"
    using "2.prems" by simp
  then have "(k, v) \<in> set (props @ (case proto of None \<Rightarrow> [] | Some p \<Rightarrow> for_inP p))"
    by (rule subsetD[OF clearjunk_subset])
  then consider "(k, v) \<in> set props" | p where "proto = Some p" "(k, v) \<in> set (for_inP p)"
    by (auto split: option.splits)
  then show ?case
  proof cases
    case 1
    then have "size v < Suc (size_list (size_prod (\<lambda>x. 0) size) props)"
      by (induction props) auto
    then show ?thesis by simp
  next
    case 2
    then have "size v < size p" using "2.IH" by blast
    then show ?thesis using 2 by simp
  qed
qed simp_all

text \<open>
  \<open>cleanObject\<close> (index.js, lines 44 to 87) on these values. It is the function of the
  section on plain data, with the loop over what \<open>for ... in\<close> visits and with the
  assignment of JavaScript.
\<close>

function (sequential) cleanObjectP :: "settings \<Rightarrow> pval \<Rightarrow> pval" where
  "cleanObjectP s (PArr items) =
     (if \<not> filterOutEmptyFields s then PArr items
      else PArr (map (\<lambda>item. if typeofP item = TObject then cleanObjectP s item else item)
        (filter (\<lambda>item.
            if item = PNull \<or> item = PUndefined then False
            else if typeofP item = TObject \<and> keys_countP (cleanObjectP s item) = Some 0 then False
            else if isArrayP item \<and> array_lengthP item = 0 then False
            else True) items)))"
| "cleanObjectP s (PObj props proto) =
     (if \<not> filterOutEmptyFields s then PObj props proto
      else fold (\<lambda>(key, val) newObj.
          if val = PNull \<or> val = PUndefined then newObj
          else if typeofP val = TObject then
            (let cleaned = cleanObjectP s val in
             if (case keys_countP cleaned of Some n \<Rightarrow> 0 < n | None \<Rightarrow> False)
                \<or> isArrayP cleaned \<and> 0 < array_lengthP cleaned
             then assign key cleaned newObj else newObj)
          else if val \<noteq> PStr '''' then assign key val newObj
          else newObj) (for_inP (PObj props proto)) (PObj [] None))"
| "cleanObjectP s obj = obj"
  by pat_completeness auto
termination
proof (relation "measure (\<lambda>(s, x). size x)", goal_cases)
  case 1
  show ?case by simp
next
  case (2 s items x)
  then show ?case by (simp add: size_member)
next
  case (3 s items z)
  then show ?case by (simp add: size_member)
next
  case (4 s props proto x xa y)
  then have "(xa, y) \<in> set (for_inP (PObj props proto))" by simp
  then have "size y < size (PObj props proto)" by (rule for_inP_size)
  then show ?case by simp
qed

text \<open>
  Plain data among these values: every object has the prototype \<open>Object.prototype\<close>.
\<close>

primrec embed :: "jsval \<Rightarrow> pval" where
  "embed JUndefined = PUndefined"
| "embed JNull = PNull"
| "embed (JBool b) = PBool b"
| "embed (JNum n) = PNum n"
| "embed (JStr str) = PStr str"
| "embed (JArr items) = PArr (map embed items)"
| "embed (JObj props) = PObj (map (map_prod id embed) props) None"

section \<open>The heap\<close>

text \<open>
  Whether \<open>cleanObject\<close> writes to its argument is a question about the store, which
  the values above do not have. Here an array or an object is a cell of the heap, a
  value refers to it by its address, and two values may refer to the same cell. The
  heap is the list of its cells: an address is an index, and allocation appends.
\<close>

datatype hval = HUndefined | HNull | HBool bool | HNum jsnum | HStr string | HRef nat

datatype cell = ArrCell "hval list" | ObjCell "(string \<times> hval) list"

type_synonym heap = "cell list"

definition lookup :: "heap \<Rightarrow> nat \<Rightarrow> cell option" where
  "lookup h a = (if a < length h then Some (h ! a) else None)"

definition alloc :: "heap \<Rightarrow> cell \<Rightarrow> nat \<times> heap" where
  "alloc h c = (length h, h @ [c])"

text \<open>
  \<open>typeof\<close>, \<open>Array.isArray\<close>, \<open>.length\<close> behind an \<open>Array.isArray\<close> test and
  \<open>Object.keys(v).length\<close>, on the values of the heap.
\<close>

fun htypeof :: "hval \<Rightarrow> jstype" where
  "htypeof HUndefined = TUndefined"
| "htypeof HNull = TObject"
| "htypeof (HBool b) = TBoolean"
| "htypeof (HNum n) = TNumber"
| "htypeof (HStr s) = TString"
| "htypeof (HRef a) = TObject"

fun hisArray :: "heap \<Rightarrow> hval \<Rightarrow> bool" where
  "hisArray h (HRef a) = (case lookup h a of Some (ArrCell xs) \<Rightarrow> True | _ \<Rightarrow> False)"
| "hisArray h v = False"

fun harray_length :: "heap \<Rightarrow> hval \<Rightarrow> nat" where
  "harray_length h (HRef a) = (case lookup h a of Some (ArrCell xs) \<Rightarrow> length xs | _ \<Rightarrow> 0)"
| "harray_length h v = 0"

fun hkeys_count :: "heap \<Rightarrow> hval \<Rightarrow> exn + nat" where
  "hkeys_count h HUndefined = Inl (TypeError ''Cannot convert undefined or null to object'')"
| "hkeys_count h HNull = Inl (TypeError ''Cannot convert undefined or null to object'')"
| "hkeys_count h (HBool b) = Inr 0"
| "hkeys_count h (HNum n) = Inr 0"
| "hkeys_count h (HStr s) = Inr (length s)"
| "hkeys_count h (HRef a) =
     (case lookup h a of
        None \<Rightarrow> Inl (Unallocated a)
      | Some (ArrCell xs) \<Rightarrow> Inr (length xs)
      | Some (ObjCell ps) \<Rightarrow> Inr (length ps))"

text \<open>
  The assignment \<open>newObj[key] = v\<close>, the only statement of \<open>cleanObject\<close> that writes
  to a cell. (For the name \<open>__proto__\<close> JavaScript writes the prototype of \<open>newObj\<close>
  instead of a property of it: the cell written is the same.)
\<close>

definition set_prop :: "heap \<Rightarrow> nat \<Rightarrow> string \<Rightarrow> hval \<Rightarrow> heap" where
  "set_prop h a key v =
     (case lookup h a of
        Some (ObjCell ps) \<Rightarrow> h[a := ObjCell (AList.update key v ps)]
      | _ \<Rightarrow> h)"

section \<open>The sanitizer on the heap\<close>

text \<open>
  A computation takes the heap and returns an exception or a value, with the heap that
  it leaves in either case. The two arrow functions of \<open>cleanObject\<close> call \<open>cleanObject\<close> itself; they
  take that call as their first argument here, so that the recursion is on the depth
  of the call stack alone.
\<close>

type_synonym 'a comp = "heap \<Rightarrow> (exn + 'a) \<times> heap"

definition filter_cb :: "(hval \<Rightarrow> hval comp) \<Rightarrow> hval \<Rightarrow> bool comp" where
  "filter_cb clean item h =
     (if item = HNull \<or> item = HUndefined then (Inr False, h)
      else if htypeof item = TObject then
        (case clean item h of
           (Inl e, h1) \<Rightarrow> (Inl e, h1)
         | (Inr cleaned, h1) \<Rightarrow>
             (case hkeys_count h1 cleaned of
                Inl e \<Rightarrow> (Inl e, h1)
              | Inr k \<Rightarrow>
                  if k = 0 then (Inr False, h1)
                  else if hisArray h1 item \<and> harray_length h1 item = 0 then (Inr False, h1)
                  else (Inr True, h1)))
      else if hisArray h item \<and> harray_length h item = 0 then (Inr False, h)
      else (Inr True, h))"

definition map_cb :: "(hval \<Rightarrow> hval comp) \<Rightarrow> hval \<Rightarrow> hval comp" where
  "map_cb clean item h = (if htypeof item = TObject then clean item h else (Inr item, h))"

text \<open>
  \<open>Array.prototype.filter\<close> and \<open>Array.prototype.map\<close> call their argument on every
  element in turn; each call may allocate, so the heap is passed along.
\<close>

fun filter_loop :: "(hval \<Rightarrow> bool comp) \<Rightarrow> hval list \<Rightarrow> hval list comp" where
  "filter_loop cb [] h = (Inr [], h)"
| "filter_loop cb (item # rest) h =
     (case cb item h of
        (Inl e, h1) \<Rightarrow> (Inl e, h1)
      | (Inr keep, h1) \<Rightarrow>
          (case filter_loop cb rest h1 of
             (Inl e, h2) \<Rightarrow> (Inl e, h2)
           | (Inr kept, h2) \<Rightarrow> (Inr (if keep then item # kept else kept), h2)))"

fun map_loop :: "(hval \<Rightarrow> hval comp) \<Rightarrow> hval list \<Rightarrow> hval list comp" where
  "map_loop cb [] h = (Inr [], h)"
| "map_loop cb (item # rest) h =
     (case cb item h of
        (Inl e, h1) \<Rightarrow> (Inl e, h1)
      | (Inr v, h1) \<Rightarrow>
          (case map_loop cb rest h1 of
             (Inl e, h2) \<Rightarrow> (Inl e, h2)
           | (Inr vs, h2) \<Rightarrow> (Inr (v # vs), h2)))"

text \<open>
  The \<open>for ... in\<close> loop over the properties of \<open>obj\<close>, with \<open>newObj\<close> the address of
  the object under construction. The loop is over the properties that \<open>obj\<close> has when
  it begins; \<open>cleanObjectH_frame\<close> below shows that the cell of \<open>obj\<close> is the same at
  every round.
\<close>

fun for_in :: "(hval \<Rightarrow> hval comp) \<Rightarrow> nat \<Rightarrow> (string \<times> hval) list \<Rightarrow> unit comp" where
  "for_in clean newObj [] h = (Inr (), h)"
| "for_in clean newObj ((key, val) # rest) h =
     (if val = HNull \<or> val = HUndefined then for_in clean newObj rest h
      else if htypeof val = TObject then
        (case clean val h of
           (Inl e, h1) \<Rightarrow> (Inl e, h1)
         | (Inr cleaned, h1) \<Rightarrow>
             (case hkeys_count h1 cleaned of
                Inl e \<Rightarrow> (Inl e, h1)
              | Inr k \<Rightarrow>
                  if 0 < k \<or> hisArray h1 cleaned \<and> 0 < harray_length h1 cleaned
                  then for_in clean newObj rest (set_prop h1 newObj key cleaned)
                  else for_in clean newObj rest h1))
      else if val \<noteq> HStr '''' then for_in clean newObj rest (set_prop h newObj key val)
      else for_in clean newObj rest h)"

text \<open>
  \<open>cleanObject\<close> on the heap. The first argument after the settings bounds the depth
  of the recursion, as the call stack of the engine does: at depth zero the call throws
  a \<open>RangeError\<close>, which every caller passes on. \<open>filter\<close> and \<open>map\<close> each return a new array; \<open>newObj\<close> is
  allocated empty before the loop and assigned to inside it.
\<close>

fun cleanObjectH :: "settings \<Rightarrow> nat \<Rightarrow> hval \<Rightarrow> hval comp" where
  "cleanObjectH s 0 obj h = (Inl (RangeError ''Maximum call stack size exceeded''), h)"
| "cleanObjectH s (Suc n) obj h =
     (if \<not> filterOutEmptyFields s then (Inr obj, h)
      else (case obj of
          HUndefined \<Rightarrow> (Inr obj, h)
        | HNull \<Rightarrow> (Inr obj, h)
        | HRef a \<Rightarrow>
            (case lookup h a of
               None \<Rightarrow> (Inl (Unallocated a), h)
             | Some (ArrCell items) \<Rightarrow>
                 (case filter_loop (filter_cb (cleanObjectH s n)) items h of
                    (Inl e, h1) \<Rightarrow> (Inl e, h1)
                  | (Inr kept, h1) \<Rightarrow>
                      (case alloc h1 (ArrCell kept) of
                         (filtered, h2) \<Rightarrow>
                           (case map_loop (map_cb (cleanObjectH s n)) kept h2 of
                              (Inl e, h3) \<Rightarrow> (Inl e, h3)
                            | (Inr mapped, h3) \<Rightarrow>
                                (case alloc h3 (ArrCell mapped) of
                                   (newArray, h4) \<Rightarrow> (Inr (HRef newArray), h4)))))
             | Some (ObjCell props) \<Rightarrow>
                 (case alloc h (ObjCell []) of
                    (newObj, h1) \<Rightarrow>
                      (case for_in (cleanObjectH s n) newObj props h1 of
                         (Inl e, h2) \<Rightarrow> (Inl e, h2)
                       | (Inr u, h2) \<Rightarrow> (Inr (HRef newObj), h2))))
        | _ \<Rightarrow> (Inr obj, h)))"

text \<open>
  The snapshot of a value: the tree that it denotes in a heap, read to a given depth.
  \<open>None\<close> when the value is deeper than that, cyclic, or refers to no cell.
\<close>

fun deref :: "nat \<Rightarrow> heap \<Rightarrow> hval \<Rightarrow> jsval option" where
  "deref m h HUndefined = Some JUndefined"
| "deref m h HNull = Some JNull"
| "deref m h (HBool b) = Some (JBool b)"
| "deref m h (HNum n) = Some (JNum n)"
| "deref m h (HStr s) = Some (JStr s)"
| "deref 0 h (HRef a) = None"
| "deref (Suc m) h (HRef a) =
     (case lookup h a of
        None \<Rightarrow> None
      | Some (ArrCell items) \<Rightarrow> map_option JArr (those (map (deref m h) items))
      | Some (ObjCell props) \<Rightarrow>
          map_option JObj (those (map (\<lambda>p. map_option (Pair (fst p)) (deref m h (snd p))) props)))"

section \<open>The deep copy\<close>

text \<open>
  \<open>logPromptStruct\<close> copies its argument with \<open>JSON.parse(JSON.stringify(promptStruct))\<close>.
  Both functions are the platform's; this is their composition on the values of the
  heap. \<open>JSON.stringify\<close> keeps the stack of the objects it is inside and throws a
  \<open>TypeError\<close> when it meets one of them again; it writes \<open>null\<close> for \<open>NaN\<close>, for an
  infinity and for an \<open>undefined\<close> element of an array, and leaves out a property whose
  value is \<open>undefined\<close>; on \<open>undefined\<close> itself it returns \<open>undefined\<close>, which
  \<open>JSON.parse\<close> rejects with a \<open>SyntaxError\<close>. The copy shares nothing with the
  heap: it is a value of the first section.
\<close>

definition json_number :: "jsnum \<Rightarrow> jsval" where
  "json_number n = (case n of Finite r \<Rightarrow> JNum (Finite r) | _ \<Rightarrow> JNull)"

definition unvisited :: "heap \<Rightarrow> nat list \<Rightarrow> nat" where
  "unvisited h stack = card ({..<length h} - set stack)"

lemma unvisited_push: "a < length h \<Longrightarrow> a \<notin> set stack \<Longrightarrow> unvisited h (a # stack) < unvisited h stack"
  unfolding unvisited_def by (intro psubset_card_mono) auto

function json_value :: "heap \<Rightarrow> nat list \<Rightarrow> hval \<Rightarrow> exn + jsval option"
  and json_items :: "heap \<Rightarrow> nat list \<Rightarrow> hval list \<Rightarrow> exn + jsval list"
  and json_props :: "heap \<Rightarrow> nat list \<Rightarrow> (string \<times> hval) list \<Rightarrow> exn + (string \<times> jsval) list"
where
  "json_value h stack HUndefined = Inr None"
| "json_value h stack HNull = Inr (Some JNull)"
| "json_value h stack (HBool b) = Inr (Some (JBool b))"
| "json_value h stack (HNum n) = Inr (Some (json_number n))"
| "json_value h stack (HStr s) = Inr (Some (JStr s))"
| "json_value h stack (HRef a) =
     (if a \<in> set stack then Inl (TypeError ''Converting circular structure to JSON'')
      else if \<not> a < length h then Inl (Unallocated a)
      else (case h ! a of
          ArrCell items \<Rightarrow>
            (case json_items h (a # stack) items of
               Inl e \<Rightarrow> Inl e | Inr xs \<Rightarrow> Inr (Some (JArr xs)))
        | ObjCell props \<Rightarrow>
            (case json_props h (a # stack) props of
               Inl e \<Rightarrow> Inl e | Inr ps \<Rightarrow> Inr (Some (JObj ps)))))"
| "json_items h stack [] = Inr []"
| "json_items h stack (x # xs) =
     (case json_value h stack x of
        Inl e \<Rightarrow> Inl e
      | Inr r \<Rightarrow>
         (case json_items h stack xs of
            Inl e \<Rightarrow> Inl e
          | Inr rs \<Rightarrow> Inr ((case r of None \<Rightarrow> JNull | Some t \<Rightarrow> t) # rs)))"
| "json_props h stack [] = Inr []"
| "json_props h stack (p # ps) =
     (case json_value h stack (snd p) of
        Inl e \<Rightarrow> Inl e
      | Inr r \<Rightarrow>
         (case json_props h stack ps of
            Inl e \<Rightarrow> Inl e
          | Inr rs \<Rightarrow> Inr ((case r of None \<Rightarrow> rs | Some t \<Rightarrow> (fst p, t) # rs))))"
  by pat_completeness auto

termination
  apply (relation "inv_image (less_than <*lex*> less_than)
     (\<lambda>x. case x of
        Inl (h, stack, v) \<Rightarrow> (unvisited h stack, 0)
      | Inr (Inl (h, stack, xs)) \<Rightarrow> (unvisited h stack, Suc (length xs))
      | Inr (Inr (h, stack, ps)) \<Rightarrow> (unvisited h stack, Suc (length ps)))")
  apply (auto simp: unvisited_push)
  done

text \<open>
  The number of cells that are not on the stack decreases at every reference followed,
  and the list decreases in between.
\<close>

definition deep_copy :: "heap \<Rightarrow> hval \<Rightarrow> exn + jsval" where
  "deep_copy h v =
     (case json_value h [] v of
        Inl e \<Rightarrow> Inl e
      | Inr None \<Rightarrow> Inl (SyntaxError ''undefined is not valid JSON'')
      | Inr (Some t) \<Rightarrow> Inr t)"

section \<open>The reporter\<close>

text \<open>
  The expressions of \<open>logPromptStruct\<close> (index.js, lines 93 to 177) on the copy. A
  \<open>for ... in\<close> loop runs over the keys of its operand and not at all over \<open>null\<close> and
  \<open>undefined\<close>. Reading a property of \<open>null\<close> or \<open>undefined\<close> throws a \<open>TypeError\<close>;
  of any other value it gives the own property of that name, or \<open>undefined\<close>. (The
  names read here are the six sections, the three fields and the keys of a section;
  none is a property of a built-in prototype.)
\<close>

definition for_in_keys :: "jsval \<Rightarrow> string list" where
  "for_in_keys v = (case object_keys v of Inl e \<Rightarrow> [] | Inr ks \<Rightarrow> ks)"

definition index_of_key :: "string \<Rightarrow> nat \<Rightarrow> nat option" where
  "index_of_key key n = find (\<lambda>i. show_nat i = key) [0..<n]"

fun get_prop :: "jsval \<Rightarrow> string \<Rightarrow> exn + jsval" where
  "get_prop JUndefined key = Inl (TypeError ''Cannot read properties of undefined'')"
| "get_prop JNull key = Inl (TypeError ''Cannot read properties of null'')"
| "get_prop (JBool b) key = Inr JUndefined"
| "get_prop (JNum n) key = Inr JUndefined"
| "get_prop (JStr s) key =
     Inr (case index_of_key key (length s) of Some i \<Rightarrow> JStr [s ! i] | None \<Rightarrow> JUndefined)"
| "get_prop (JArr xs) key =
     Inr (case index_of_key key (length xs) of Some i \<Rightarrow> xs ! i | None \<Rightarrow> JUndefined)"
| "get_prop (JObj ps) key =
     Inr (case map_of ps key of Some v \<Rightarrow> v | None \<Rightarrow> JUndefined)"

fun get_path :: "jsval \<Rightarrow> string list \<Rightarrow> exn + jsval" where
  "get_path v [] = Inr v"
| "get_path v (key # keys) =
     (case get_prop v key of Inl e \<Rightarrow> Inl e | Inr w \<Rightarrow> get_path w keys)"

fun truthy :: "jsval \<Rightarrow> bool" where
  "truthy JUndefined = False"
| "truthy JNull = False"
| "truthy (JBool b) = b"
| "truthy (JNum n) = (case n of Finite r \<Rightarrow> r \<noteq> 0 | NaN \<Rightarrow> False | _ \<Rightarrow> True)"
| "truthy (JStr s) = (s \<noteq> [])"
| "truthy (JArr xs) = True"
| "truthy (JObj ps) = True"

text \<open>
  The console. An event is a call of \<open>console.group\<close>, \<open>console.groupEnd\<close>,
  \<open>console.log\<close>, \<open>console.warn\<close> or \<open>console.error\<close> with its arguments. A template
  literal with the chat id in it is kept as its two pieces of text and the value
  between them.
\<close>

datatype arg = AStr string | ATemplate string hval string | AVal jsval | AErr exn

datatype console_event =
    ConsoleGroup "arg list"
  | ConsoleGroupEnd
  | ConsoleLog "arg list"
  | ConsoleWarn "arg list"
  | ConsoleError "arg list"

text \<open>
  A run of statements writes events and may end in an exception, which stops it: the
  events written before stay on the console.
\<close>

type_synonym run = "console_event list \<times> exn option"

definition emit :: "console_event \<Rightarrow> run" where
  "emit ev = ([ev], None)"

definition throw :: "exn \<Rightarrow> run" where
  "throw e = ([], Some e)"

definition skip :: run where
  "skip = ([], None)"

fun seq :: "run list \<Rightarrow> run" where
  "seq [] = ([], None)"
| "seq ((out, Some e) # rest) = (out, Some e)"
| "seq ((out, None) # rest) = (case seq rest of (out', r) \<Rightarrow> (out @ out', r))"

text \<open>
  \<open>console.log(label, expr)\<close>: the argument is evaluated first, and nothing is written
  when that throws.
\<close>

definition log_expr :: "string \<Rightarrow> exn + jsval \<Rightarrow> run" where
  "log_expr label expr =
     (case expr of Inl e \<Rightarrow> throw e | Inr v \<Rightarrow> emit (ConsoleLog [AStr label, AVal v]))"

text \<open>
  The verbose part, lines 115 to 170. The three \<open>console.log\<close> lines of a section
  read from the cleaned structure again, along the path of the section.
\<close>

definition section_lines :: "jsval \<Rightarrow> string list \<Rightarrow> run list" where
  "section_lines cleaned path =
     [log_expr ''Text Components:'' (get_path cleaned (path @ [''text''])),
      log_expr ''Additional Chat Log:'' (get_path cleaned (path @ [''additional_chat_log''])),
      log_expr ''Extensions:'' (get_path cleaned (path @ [''extension'']))]"

definition section_group :: "string \<Rightarrow> string \<Rightarrow> string \<Rightarrow> jsval \<Rightarrow> run" where
  "section_group label css name cleaned =
     (case get_prop cleaned name of
        Inl e \<Rightarrow> throw e
      | Inr v \<Rightarrow>
          if truthy v
          then seq ([emit (ConsoleGroup [AStr label, AStr css])]
                 @ section_lines cleaned [name]
                 @ [emit ConsoleGroupEnd])
          else skip)"

definition keyed_groups :: "string \<Rightarrow> string \<Rightarrow> string \<Rightarrow> string \<Rightarrow> jsval \<Rightarrow> run" where
  "keyed_groups label css item_label name cleaned =
     (case get_prop cleaned name of
        Inl e \<Rightarrow> throw e
      | Inr v \<Rightarrow>
          (case object_keys (if truthy v then v else JObj []) of
             Inl e \<Rightarrow> throw e
           | Inr ks \<Rightarrow>
               if 0 < length ks
               then seq ([emit (ConsoleGroup [AStr label, AStr css])]
                      @ map (\<lambda>id. seq ([emit (ConsoleGroup [AStr (item_label @ id)])]
                                       @ section_lines cleaned [name, id]
                                       @ [emit ConsoleGroupEnd]))
                          (for_in_keys v)
                      @ [emit ConsoleGroupEnd])
               else skip))"

definition chat_log_group :: "jsval \<Rightarrow> run" where
  "chat_log_group cleaned =
     (case get_prop cleaned ''chat_log'' of
        Inl e \<Rightarrow> throw e
      | Inr v \<Rightarrow>
          if truthy v
          then seq [emit (ConsoleGroup [AStr ''%cChat Log'', AStr ''color: #795548; font-weight: bold;'']),
                    log_expr ''Entries:'' (get_prop cleaned ''chat_log''),
                    emit ConsoleGroupEnd]
          else skip)"

definition verbose_sections :: "jsval \<Rightarrow> run" where
  "verbose_sections cleaned =
     seq [section_group ''%cCharacter Prompt'' ''color: #2196F3; font-weight: bold;''
            ''char_prompt'' cleaned,
          section_group ''%cUser Prompt'' ''color: #FF9800; font-weight: bold;''
            ''user_prompt'' cleaned,
          section_group ''%cWorld Prompt'' ''color: #9C27B0; font-weight: bold;''
            ''world_prompt'' cleaned,
          keyed_groups ''%cOther Characters Prompts'' ''color: #E91E63; font-weight: bold;''
            ''Character ID: '' ''other_chars_prompt'' cleaned,
          keyed_groups ''%cPlugin Prompts'' ''color: #00BCD4; font-weight: bold;''
            ''Plugin ID: '' ''plugin_prompts'' cleaned,
          chat_log_group cleaned]"

text \<open>
  The body of the \<open>try\<close> block, and \<open>logPromptStruct\<close> with its \<open>catch\<close>. The time of
  the call, \<open>new Date().toISOString()\<close>, is the parameter \<open>now\<close>.
\<close>

definition logPromptStruct_try :: "settings \<Rightarrow> string \<Rightarrow> heap \<Rightarrow> hval \<Rightarrow> hval \<Rightarrow> run" where
  "logPromptStruct_try s now h promptStruct chatId =
     (if \<not> enabled s then skip
      else (case deep_copy h promptStruct of
          Inl e \<Rightarrow> throw e
        | Inr promptStructCopy \<Rightarrow>
            (let cleanedPromptStruct = cleanObject s promptStructCopy in
             seq [emit (ConsoleGroup [ATemplate ''%cPrompt Structure (Chat ID: '' chatId '')'',
                          AStr ''color: #4CAF50; font-weight: bold; font-size: 16px;'']),
                  emit (ConsoleLog [AStr (''%cTimestamp: '' @ now), AStr ''color: #999999;'']),
                  emit (ConsoleLog [AStr ''Full Prompt Structure:'', AVal cleanedPromptStruct]),
                  if verboseLogging s then verbose_sections cleanedPromptStruct else skip,
                  emit ConsoleGroupEnd])))"

definition logPromptStruct :: "settings \<Rightarrow> string \<Rightarrow> heap \<Rightarrow> hval \<Rightarrow> hval \<Rightarrow> console_event list" where
  "logPromptStruct s now h promptStruct chatId =
     (case logPromptStruct_try s now h promptStruct chatId of
        (out, None) \<Rightarrow> out
      | (out, Some error) \<Rightarrow>
          out @ [ConsoleError [AStr ''Error in Prompt Debugger plugin:'', AErr error]])"

text \<open>
  The listener of \<open>CHAT_COMPLETION_PROMPT_READY\<close> (index.js, lines 185 to 203), on a
  payload in the heap. The destructuring of the payload throws on \<open>null\<close> and
  \<open>undefined\<close>; the \<open>catch\<close> of the listener logs it.
\<close>

fun htruthy :: "hval \<Rightarrow> bool" where
  "htruthy HUndefined = False"
| "htruthy HNull = False"
| "htruthy (HBool b) = b"
| "htruthy (HNum n) = (case n of Finite r \<Rightarrow> r \<noteq> 0 | NaN \<Rightarrow> False | _ \<Rightarrow> True)"
| "htruthy (HStr s) = (s \<noteq> [])"
| "htruthy (HRef a) = True"

fun hget_prop :: "heap \<Rightarrow> hval \<Rightarrow> string \<Rightarrow> exn + hval" where
  "hget_prop h HUndefined key = Inl (TypeError ''Cannot destructure property of undefined'')"
| "hget_prop h HNull key = Inl (TypeError ''Cannot destructure property of null'')"
| "hget_prop h (HBool b) key = Inr HUndefined"
| "hget_prop h (HNum n) key = Inr HUndefined"
| "hget_prop h (HStr s) key =
     Inr (case index_of_key key (length s) of Some i \<Rightarrow> HStr [s ! i] | None \<Rightarrow> HUndefined)"
| "hget_prop h (HRef a) key =
     (case lookup h a of
        None \<Rightarrow> Inl (Unallocated a)
      | Some (ArrCell xs) \<Rightarrow>
          Inr (case index_of_key key (length xs) of Some i \<Rightarrow> xs ! i | None \<Rightarrow> HUndefined)
      | Some (ObjCell ps) \<Rightarrow>
          Inr (case map_of ps key of Some v \<Rightarrow> v | None \<Rightarrow> HUndefined))"

definition on_prompt_ready :: "settings \<Rightarrow> string \<Rightarrow> heap \<Rightarrow> hval \<Rightarrow> console_event list" where
  "on_prompt_ready s now h payload =
     (if \<not> enabled s then []
      else (case hget_prop h payload ''prompt_struct'' of
          Inl err \<Rightarrow>
            [ConsoleError [AStr ''Prompt Debugger: Error processing CHAT_COMPLETION_PROMPT_READY event'', AErr err]]
        | Inr prompt_struct \<Rightarrow>
            (case hget_prop h payload ''chat_id'' of
               Inl err \<Rightarrow>
                 [ConsoleError [AStr ''Prompt Debugger: Error processing CHAT_COMPLETION_PROMPT_READY event'', AErr err]]
             | Inr chat_id \<Rightarrow>
                 if htruthy prompt_struct
                 then ConsoleLog [ATemplate ''%cPrompt Debugger: Captured prompt for chat ID '' chat_id '''',
                        AStr ''color: #4CAF50;'']
                      # logPromptStruct s now h prompt_struct chat_id
                 else [ConsoleWarn [AStr ''Prompt Debugger: No prompt structure available in the payload'']])))"

section \<open>The report as the specification describes it\<close>

text \<open>
  Section 4.2 of the specification, steps 4 to 6, as a function from the sanitized
  structure to the lines written: no exception, a field that is absent renders as
  \<open>undefined\<close>. The labels and styles are those of the code.
\<close>

definition field :: "jsval \<Rightarrow> string \<Rightarrow> jsval" where
  "field v key = (case get_prop v key of Inl e \<Rightarrow> JUndefined | Inr w \<Rightarrow> w)"

definition expected_lines :: "jsval \<Rightarrow> console_event list" where
  "expected_lines v =
     [ConsoleLog [AStr ''Text Components:'', AVal (field v ''text'')],
      ConsoleLog [AStr ''Additional Chat Log:'', AVal (field v ''additional_chat_log'')],
      ConsoleLog [AStr ''Extensions:'', AVal (field v ''extension'')]]"

definition expected_section :: "string \<Rightarrow> string \<Rightarrow> jsval \<Rightarrow> console_event list" where
  "expected_section label css v =
     (if truthy v
      then ConsoleGroup [AStr label, AStr css] # expected_lines v @ [ConsoleGroupEnd]
      else [])"

definition expected_keyed :: "string \<Rightarrow> string \<Rightarrow> string \<Rightarrow> jsval \<Rightarrow> console_event list" where
  "expected_keyed label css item_label v =
     (if for_in_keys v = [] then []
      else ConsoleGroup [AStr label, AStr css]
        # concat (map (\<lambda>id. ConsoleGroup [AStr (item_label @ id)]
                            # expected_lines (field v id) @ [ConsoleGroupEnd])
            (for_in_keys v))
        @ [ConsoleGroupEnd])"

definition expected_chat_log :: "jsval \<Rightarrow> console_event list" where
  "expected_chat_log v =
     (if truthy v
      then [ConsoleGroup [AStr ''%cChat Log'', AStr ''color: #795548; font-weight: bold;''],
            ConsoleLog [AStr ''Entries:'', AVal v],
            ConsoleGroupEnd]
      else [])"

definition expected_report :: "settings \<Rightarrow> string \<Rightarrow> hval \<Rightarrow> jsval \<Rightarrow> console_event list" where
  "expected_report s now chatId cleaned =
     [ConsoleGroup [ATemplate ''%cPrompt Structure (Chat ID: '' chatId '')'',
        AStr ''color: #4CAF50; font-weight: bold; font-size: 16px;''],
      ConsoleLog [AStr (''%cTimestamp: '' @ now), AStr ''color: #999999;''],
      ConsoleLog [AStr ''Full Prompt Structure:'', AVal cleaned]]
     @ (if verboseLogging s
        then expected_section ''%cCharacter Prompt'' ''color: #2196F3; font-weight: bold;''
               (field cleaned ''char_prompt'')
           @ expected_section ''%cUser Prompt'' ''color: #FF9800; font-weight: bold;''
               (field cleaned ''user_prompt'')
           @ expected_section ''%cWorld Prompt'' ''color: #9C27B0; font-weight: bold;''
               (field cleaned ''world_prompt'')
           @ expected_keyed ''%cOther Characters Prompts'' ''color: #E91E63; font-weight: bold;''
               ''Character ID: '' (field cleaned ''other_chars_prompt'')
           @ expected_keyed ''%cPlugin Prompts'' ''color: #00BCD4; font-weight: bold;''
               ''Plugin ID: '' (field cleaned ''plugin_prompts'')
           @ expected_chat_log (field cleaned ''chat_log'')
        else [])
     @ [ConsoleGroupEnd]"

section \<open>Notions for the proofs\<close>

text \<open>
  The body of the \<open>for ... in\<close> loop of \<open>cleanObject\<close> under a name, and the values
  that it keeps.
\<close>

definition clean_step :: "settings \<Rightarrow> string \<times> jsval \<Rightarrow> (string \<times> jsval) list \<Rightarrow> (string \<times> jsval) list" where
  "clean_step s = (\<lambda>(key, val) newObj.
          if val = JNull \<or> val = JUndefined then newObj
          else if typeof val = TObject then
            (let cleaned = cleanObject s val in
             if (case keys_count cleaned of Some n \<Rightarrow> 0 < n | None \<Rightarrow> False)
                \<or> isArray cleaned \<and> 0 < array_length cleaned
             then AList.update key cleaned newObj else newObj)
          else if val \<noteq> JStr '''' then AList.update key val newObj
          else newObj)"

definition kept_value :: "settings \<Rightarrow> jsval \<Rightarrow> bool" where
  "kept_value s v \<longleftrightarrow>
     v \<noteq> JNull \<and> v \<noteq> JUndefined \<and>
     (if typeof v = TObject
      then cleanObject s v = v \<and>
        ((case keys_count v of Some n \<Rightarrow> 0 < n | None \<Rightarrow> False) \<or> isArray v \<and> 0 < array_length v)
      else v \<noteq> JStr '''')"

text \<open>
  A computation that returns leaves a heap that extends the one it was given; a heap
  agrees with another below an address.
\<close>

definition frame :: "'a comp \<Rightarrow> bool" where
  "frame c \<longleftrightarrow> (\<forall>h. prefix h (snd (c h)))"

definition below :: "nat \<Rightarrow> heap \<Rightarrow> heap \<Rightarrow> bool" where
  "below k h h' \<longleftrightarrow> length h \<le> length h' \<and> take k h' = take k h"

text \<open>
  The two arrow functions of \<open>cleanObject\<close> on plain data, under names.
\<close>

definition filter_pred :: "settings \<Rightarrow> jsval \<Rightarrow> bool" where
  "filter_pred s = (\<lambda>item.
            if item = JNull \<or> item = JUndefined then False
            else if typeof item = TObject \<and> keys_count (cleanObject s item) = Some 0 then False
            else if isArray item \<and> array_length item = 0 then False
            else True)"

definition map_fn :: "settings \<Rightarrow> jsval \<Rightarrow> jsval" where
  "map_fn s = (\<lambda>item. if typeof item = TObject then cleanObject s item else item)"

text \<open>
  A value of the heap denotes a tree whatever the cells outside a range of addresses
  hold; a function on the heap computes \<open>cleanObject\<close> on the trees of a given depth,
  in cells of its own.
\<close>

definition stable :: "nat \<Rightarrow> nat \<Rightarrow> heap \<Rightarrow> nat \<Rightarrow> hval \<Rightarrow> jsval \<Rightarrow> bool" where
  "stable lo hi h m v t \<longleftrightarrow>
     (\<forall>h2. (\<forall>a. lo \<le> a \<and> a < hi \<longrightarrow> lookup h2 a = lookup h a) \<longrightarrow> deref m h2 v = Some t)"

definition refines :: "settings \<Rightarrow> nat \<Rightarrow> (hval \<Rightarrow> hval comp) \<Rightarrow> bool" where
  "refines s m clean \<longleftrightarrow>
     (\<forall>x h t. deref m h x = Some t \<longrightarrow>
        (\<exists>r h'. clean x h = (Inr r, h') \<and> prefix h h' \<and>
           stable (length h) (length h') h' m r (cleanObject s t)))"

text \<open>
  Every member of a value is neither \<open>null\<close> nor \<open>undefined\<close>; the empty values that
  the sanitizer prunes; the scalars that are falsy without being empty.
\<close>

definition members_defined :: "jsval \<Rightarrow> bool" where
  "members_defined v \<longleftrightarrow>
     (\<forall>id \<in> set (for_in_keys v). field v id \<noteq> JNull \<and> field v id \<noteq> JUndefined)"



text \<open>
  The own properties and the prototype of an object; the body of the \<open>for ... in\<close>
  loop of \<open>cleanObject\<close> on objects with a prototype, the values that it keeps and the
  value that it assigns for them.
\<close>

fun props_of :: "pval \<Rightarrow> (string \<times> pval) list" where
  "props_of (PObj props proto) = props"
| "props_of v = []"

fun proto_of :: "pval \<Rightarrow> pval option" where
  "proto_of (PObj props proto) = proto"
| "proto_of v = None"

definition keptP :: "settings \<Rightarrow> pval \<Rightarrow> bool" where
  "keptP s val \<longleftrightarrow>
     val \<noteq> PNull \<and> val \<noteq> PUndefined \<and>
     (if typeofP val = TObject
      then (case keys_countP (cleanObjectP s val) of Some n \<Rightarrow> 0 < n | None \<Rightarrow> False)
        \<or> isArrayP (cleanObjectP s val) \<and> 0 < array_lengthP (cleanObjectP s val)
      else val \<noteq> PStr '''')"

definition storedP :: "settings \<Rightarrow> pval \<Rightarrow> pval" where
  "storedP s val = (if typeofP val = TObject then cleanObjectP s val else val)"

definition stepP :: "settings \<Rightarrow> string \<times> pval \<Rightarrow> pval \<Rightarrow> pval" where
  "stepP s = (\<lambda>(key, val) newObj. if keptP s val then assign key (storedP s val) newObj else newObj)"

definition embed_props :: "(string \<times> jsval) list \<Rightarrow> (string \<times> pval) list" where
  "embed_props props = map (map_prod id embed) props"

section \<open>Properties of the sanitizer\<close>

lemma cleanObject_disabled: "\<not> filterOutEmptyFields s \<Longrightarrow> cleanObject s x = x"
  by (cases x) simp_all

lemma typeof_cleanObject: "typeof (cleanObject s x) = typeof x"
  by (cases x) simp_all

lemma isArray_cleanObject: "isArray (cleanObject s x) = isArray x"
  by (cases x) simp_all

lemma cleanObject_eq_JNull: "cleanObject s x = JNull \<longleftrightarrow> x = JNull"
  by (cases x) simp_all

lemma cleanObject_eq_JUndefined: "cleanObject s x = JUndefined \<longleftrightarrow> x = JUndefined"
  by (cases x) simp_all

text \<open>
  Inside \<open>cleanObject\<close>, \<open>Object.keys\<close> is applied to the cleaned form of a value
  whose \<open>typeof\<close> is \<open>'object'\<close> and that is not \<open>null\<close>: it never throws there.
\<close>

lemma keys_count_cleanObject_defined:
  "typeof v = TObject \<Longrightarrow> v \<noteq> JNull \<Longrightarrow> \<exists>n. keys_count (cleanObject s v) = Some n"
  by (cases v) simp_all

text \<open>
  Claim C1, as the code has it: with filtering enabled, the array
  \<open>[1, null, "", {}, [], "ok"]\<close> is cleaned to \<open>[1, "", "ok"]\<close>. The filter of the
  array branch drops \<open>null\<close>, \<open>undefined\<close>, and the objects and arrays that are empty
  once cleaned; a string element, empty or not, passes through unchanged.
\<close>

theorem cleanObject_array_example:
  "cleanObject (s\<lparr>filterOutEmptyFields := True\<rparr>)
     (JArr [JNum (Finite 1), JNull, JStr '''', JObj [], JArr [], JStr ''ok''])
   = JArr [JNum (Finite 1), JStr '''', JStr ''ok'']"
  by simp

text \<open>
  The result that claim C1 states, \<open>[1, "ok"]\<close>, is not what the code returns: the
  empty string stays in the array.
\<close>

theorem cleanObject_array_example_not_spec:
  "cleanObject defaultSettings
     (JArr [JNum (Finite 1), JNull, JStr '''', JObj [], JArr [], JStr ''ok''])
   \<noteq> JArr [JNum (Finite 1), JStr ''ok'']"
  by (simp add: defaultSettings_def)

text \<open>
  Claim C3: with the filter flag disabled the sanitizer is the identity, on every
  value.
\<close>

theorem cleanObject_identity_when_disabled:
  "cleanObject (s\<lparr>filterOutEmptyFields := False\<rparr>) x = x"
  by (cases x) simp_all

text \<open>
  Claim C10: the sanitizer preserves the kind of its argument. An array is cleaned to
  an array, an object to an object, and \<open>null\<close>, \<open>undefined\<close> and every scalar are
  returned as they are, whatever the filter flag.
\<close>

theorem cleanObject_preserves_kind:
  "(case x of
      JArr items \<Rightarrow> \<exists>items'. cleanObject s x = JArr items'
    | JObj props \<Rightarrow> \<exists>props'. cleanObject s x = JObj props'
    | _ \<Rightarrow> cleanObject s x = x)"
  by (cases x) simp_all

subsection \<open>Idempotence\<close>

text \<open>
  A second pass over a cleaned array keeps every element and maps each to itself; a
  second pass over a cleaned object finds distinct keys whose values are all kept.
\<close>

lemma isArray_empty_keys: "isArray v \<Longrightarrow> array_length v = 0 \<Longrightarrow> keys_count v = Some 0"
  by (cases v) simp_all

lemma clean_items_fixed:
  assumes flt: "filterOutEmptyFields s"
    and IH: "\<And>x. x \<in> set items \<Longrightarrow> cleanObject s (cleanObject s x) = cleanObject s x"
  shows "cleanObject s (cleanObject s (JArr items)) = cleanObject s (JArr items)"
proof -
  let ?P = "\<lambda>item.
            if item = JNull \<or> item = JUndefined then False
            else if typeof item = TObject \<and> keys_count (cleanObject s item) = Some 0 then False
            else if isArray item \<and> array_length item = 0 then False
            else True"
  let ?g = "\<lambda>item. if typeof item = TObject then cleanObject s item else item"
  let ?R = "map ?g (filter ?P items)"
  have 1: "?P y \<and> ?g y = y" if "y \<in> set ?R" for y
  proof -
    from that obtain x where x: "x \<in> set items" "?P x" "y = ?g x" by auto
    show ?thesis
    proof (cases "typeof x = TObject")
      case True
      with x have y: "y = cleanObject s x" by simp
      have fixd: "cleanObject s y = y" using IH[OF x(1)] y by simp
      from x(2) True have nn: "x \<noteq> JNull" "keys_count (cleanObject s x) \<noteq> Some 0"
        by (auto split: if_splits)
      have "typeof y = TObject" using True y by (simp add: typeof_cleanObject)
      moreover have "y \<noteq> JNull" "y \<noteq> JUndefined"
        using nn(1) True y by (auto simp: cleanObject_eq_JNull cleanObject_eq_JUndefined)
      moreover have "keys_count y \<noteq> Some 0" using nn(2) y by simp
      ultimately show ?thesis using fixd isArray_empty_keys[of y] by auto
    next
      case False
      with x show ?thesis by (auto split: if_splits)
    qed
  qed
  have "filter ?P ?R = ?R" using 1 by (intro filter_True) blast
  moreover have "map ?g ?R = ?R" using 1 by (intro map_idI) blast
  ultimately show ?thesis using flt by simp
qed

lemma update_fresh: "k \<notin> fst ` set al \<Longrightarrow> AList.update k v al = al @ [(k, v)]"
  by (induction al) auto

lemma set_update_subset: "set (AList.update k v al) \<subseteq> insert (k, v) (set al)"
  by (induction al) auto

lemma cleanObject_JObj_step:
  "cleanObject s (JObj props) =
     (if \<not> filterOutEmptyFields s then JObj props else JObj (fold (clean_step s) props []))"
  by (simp add: clean_step_def)

lemma clean_step_kept: "kept_value s v \<Longrightarrow> clean_step s (k, v) acc = AList.update k v acc"
  by (auto simp: clean_step_def kept_value_def Let_def)

lemma clean_step_cases:
  assumes "cleanObject s (cleanObject s v) = cleanObject s v"
  shows "clean_step s (k, v) acc = acc \<or>
    (\<exists>w. kept_value s w \<and> clean_step s (k, v) acc = AList.update k w acc)"
proof (cases "v = JNull \<or> v = JUndefined")
  case True
  then show ?thesis by (auto simp: clean_step_def)
next
  case False
  show ?thesis
  proof (cases "typeof v = TObject")
    case True
    let ?c = "cleanObject s v"
    show ?thesis
    proof (cases "(case keys_count ?c of Some n \<Rightarrow> 0 < n | None \<Rightarrow> False) \<or> isArray ?c \<and> 0 < array_length ?c")
      case keep: True
      have "kept_value s ?c"
        using keep assms True False
        by (simp add: kept_value_def typeof_cleanObject cleanObject_eq_JNull cleanObject_eq_JUndefined)
      moreover have "clean_step s (k, v) acc = AList.update k ?c acc"
        using keep True False by (simp add: clean_step_def Let_def)
      ultimately show ?thesis by blast
    next
      case drop: False
      then have "clean_step s (k, v) acc = acc"
        using True False by (auto simp: clean_step_def Let_def)
      then show ?thesis by simp
    qed
  next
    case scalar: False
    show ?thesis
    proof (cases "v = JStr ''''")
      case True
      then show ?thesis by (simp add: clean_step_def)
    next
      case nonempty: False
      have "kept_value s v" using False scalar nonempty by (simp add: kept_value_def)
      moreover have "clean_step s (k, v) acc = AList.update k v acc"
        using False scalar nonempty by (simp add: clean_step_def)
      ultimately show ?thesis by blast
    qed
  qed
qed

lemma fold_clean_step_inv:
  assumes "\<And>k v. (k, v) \<in> set props \<Longrightarrow> cleanObject s (cleanObject s v) = cleanObject s v"
    and "distinct (map fst acc)" and "\<And>p. p \<in> set acc \<Longrightarrow> kept_value s (snd p)"
  shows "distinct (map fst (fold (clean_step s) props acc)) \<and>
    (\<forall>p \<in> set (fold (clean_step s) props acc). kept_value s (snd p))"
  using assms
proof (induction props arbitrary: acc)
  case Nil
  then show ?case by simp
next
  case (Cons p props)
  obtain k v where p: "p = (k, v)" by (cases p)
  have idem: "cleanObject s (cleanObject s v) = cleanObject s v"
    using Cons.prems(1)[of k v] p by simp
  let ?acc = "clean_step s (k, v) acc"
  have "distinct (map fst ?acc) \<and> (\<forall>q \<in> set ?acc. kept_value s (snd q))"
    using clean_step_cases[OF idem, of k acc] Cons.prems(2,3) set_update_subset
    by (fastforce simp: AList.distinct_update)
  then have "distinct (map fst (fold (clean_step s) props ?acc)) \<and>
    (\<forall>q \<in> set (fold (clean_step s) props ?acc). kept_value s (snd q))"
    by (intro Cons.IH) (use Cons.prems(1) in auto)
  then show ?case using p by simp
qed

lemma fold_clean_step_kept:
  assumes "\<And>p. p \<in> set xs \<Longrightarrow> kept_value s (snd p)"
    and "distinct (map fst (acc @ xs))"
  shows "fold (clean_step s) xs acc = acc @ xs"
  using assms
proof (induction xs arbitrary: acc)
  case Nil
  then show ?case by simp
next
  case (Cons p xs)
  obtain k v where p: "p = (k, v)" by (cases p)
  have "kept_value s v" using Cons.prems(1)[of p] p by simp
  moreover have "k \<notin> fst ` set acc" using Cons.prems(2) p by auto
  ultimately have "clean_step s p acc = acc @ [p]"
    using p by (simp add: clean_step_kept update_fresh)
  then show ?case using Cons.IH[of "acc @ [p]"] Cons.prems by simp
qed

lemma clean_props_fixed:
  assumes "\<And>k v. (k, v) \<in> set props \<Longrightarrow> cleanObject s (cleanObject s v) = cleanObject s v"
  shows "cleanObject s (cleanObject s (JObj props)) = cleanObject s (JObj props)"
proof (cases "filterOutEmptyFields s")
  case False
  then show ?thesis by (simp add: cleanObject_disabled)
next
  case True
  let ?R = "fold (clean_step s) props []"
  have inv: "distinct (map fst ?R) \<and> (\<forall>p \<in> set ?R. kept_value s (snd p))"
    using fold_clean_step_inv[of props s "[]"] assms by simp
  then have "fold (clean_step s) ?R [] = ?R"
    using fold_clean_step_kept[of ?R s "[]"] by simp
  then show ?thesis using True by (simp add: cleanObject_JObj_step del: cleanObject.simps)
qed

lemma cleanObject_fixed: "cleanObject s (cleanObject s x) = cleanObject s x"
proof (induction x)
  case (JArr items)
  show ?case
  proof (cases "filterOutEmptyFields s")
    case True
    then show ?thesis using clean_items_fixed JArr by blast
  next
    case False
    then show ?thesis by (simp add: cleanObject_disabled)
  qed
next
  case (JObj props)
  show ?case
  proof (rule clean_props_fixed)
    fix k v assume "(k, v) \<in> set props"
    then show "cleanObject s (cleanObject s v) = cleanObject s v"
      using JObj by fastforce
  qed
qed simp_all

text \<open>The cleaned form of a structurally valid value is structurally valid.\<close>

lemma clean_step_plain:
  assumes "plain_data v" and "plain_data (cleanObject s v)"
  shows "clean_step s (k, v) acc = acc \<or>
    (\<exists>w. plain_data w \<and> clean_step s (k, v) acc = AList.update k w acc)"
  using assms by (auto simp: clean_step_def Let_def)

lemma fold_clean_step_plain:
  assumes "\<And>p. p \<in> set props \<Longrightarrow> plain_data (snd p) \<and> plain_data (cleanObject s (snd p))"
    and "distinct (map fst acc)" and "\<And>p. p \<in> set acc \<Longrightarrow> plain_data (snd p)"
  shows "distinct (map fst (fold (clean_step s) props acc)) \<and>
    fst ` set (fold (clean_step s) props acc) \<subseteq> fst ` set acc \<union> fst ` set props \<and>
    (\<forall>p \<in> set (fold (clean_step s) props acc). plain_data (snd p))"
  using assms
proof (induction props arbitrary: acc)
  case Nil
  then show ?case by simp
next
  case (Cons p props)
  obtain k v where p: "p = (k, v)" by (cases p)
  let ?acc = "clean_step s (k, v) acc"
  have pv: "plain_data v" "plain_data (cleanObject s v)" using Cons.prems(1)[of p] p by simp_all
  have step: "distinct (map fst ?acc) \<and> fst ` set ?acc \<subseteq> insert k (fst ` set acc) \<and>
      (\<forall>q \<in> set ?acc. plain_data (snd q))"
    using clean_step_plain[OF pv, of k acc] Cons.prems(2,3) set_update_subset
    by (fastforce simp: AList.distinct_update AList.dom_update)
  then have ih: "distinct (map fst (fold (clean_step s) props ?acc)) \<and>
    fst ` set (fold (clean_step s) props ?acc) \<subseteq> fst ` set ?acc \<union> fst ` set props \<and>
    (\<forall>q \<in> set (fold (clean_step s) props ?acc). plain_data (snd q))"
    by (intro Cons.IH) (use Cons.prems(1) in auto)
  have "fst ` set ?acc \<union> fst ` set props \<subseteq> fst ` set acc \<union> fst ` set (p # props)"
    using step p by auto
  then have "fst ` set (fold (clean_step s) props ?acc) \<subseteq> fst ` set acc \<union> fst ` set (p # props)"
    using ih by (meson subset_trans)
  then show ?case using p ih by simp
qed

lemma plain_data_cleanObject: "plain_data x \<Longrightarrow> plain_data (cleanObject s x)"
proof (induction x)
  case (JArr items)
  then show ?case by auto
next
  case (JObj props)
  show ?case
  proof (cases "filterOutEmptyFields s")
    case False
    then show ?thesis using JObj.prems by (simp add: cleanObject_disabled)
  next
    case True
    have "p \<in> set props \<Longrightarrow> plain_data (snd p) \<and> plain_data (cleanObject s (snd p))" for p
      using JObj by (cases p) fastforce
    then have "distinct (map fst (fold (clean_step s) props [])) \<and>
      fst ` set (fold (clean_step s) props []) \<subseteq> fst ` set [] \<union> fst ` set props \<and>
      (\<forall>p \<in> set (fold (clean_step s) props []). plain_data (snd p))"
      using fold_clean_step_plain[of props s "[]"] by simp
    then show ?thesis
      using True JObj.prems by (auto simp: cleanObject_JObj_step simp del: cleanObject.simps)
  qed
qed simp_all

section \<open>Properties of the sanitizer on objects with a prototype\<close>

text \<open>
  The loop of \<open>cleanObject\<close> is a fold of its body over what \<open>for ... in\<close> visits.
  An assignment touches the own property of its name or the prototype and nothing
  else, and the loop visits a name once: the own properties of the result are the
  visited properties that the body keeps, the one named \<open>__proto__\<close> apart, which
  never becomes an own property of the result.
\<close>

lemma cleanObjectP_PObj:
  "filterOutEmptyFields s \<Longrightarrow>
   cleanObjectP s (PObj props proto) = fold (stepP s) (for_inP (PObj props proto)) (PObj [] None)"
proof -
  have "stepP s = (\<lambda>(key, val) newObj.
          if val = PNull \<or> val = PUndefined then newObj
          else if typeofP val = TObject then
            (let cleaned = cleanObjectP s val in
             if (case keys_countP cleaned of Some n \<Rightarrow> 0 < n | None \<Rightarrow> False)
                \<or> isArrayP cleaned \<and> 0 < array_lengthP cleaned
             then assign key cleaned newObj else newObj)
          else if val \<noteq> PStr '''' then assign key val newObj
          else newObj)"
    by (auto simp: stepP_def keptP_def storedP_def Let_def fun_eq_iff)
  then show ?thesis if "filterOutEmptyFields s" using that by (simp del: for_inP.simps)
qed

lemma for_inP_distinct: "distinct (map fst (for_inP (PObj props proto)))"
  by simp

lemma assign_PObj: "\<exists>props' proto'. assign key v (PObj props proto) = PObj props' proto'"
  by simp

lemma assign_keys:
  "fst ` set (props_of (assign key v obj)) \<subseteq> insert key (fst ` set (props_of obj))"
  by (cases obj) (auto simp del: for_inP.simps simp: dom_update)

lemma assign_other:
  "k \<noteq> key \<Longrightarrow> map_of (props_of (assign key v obj)) k = map_of (props_of obj) k"
  by (cases obj) (auto simp del: for_inP.simps simp: update_conv')

lemma assign_same:
  "key \<noteq> ''__proto__'' \<Longrightarrow> map_of (props_of (assign key v (PObj props proto))) key = Some v"
  by (simp del: for_inP.simps add: update_conv')

lemma assign_proto_other:
  "key \<noteq> ''__proto__'' \<Longrightarrow> proto_of (assign key v obj) = proto_of obj"
  by (cases obj) (simp_all del: for_inP.simps)

lemma stepP_PObj: "\<exists>props' proto'. stepP s e (PObj props proto) = PObj props' proto'"
  by (cases e) (simp add: stepP_def del: assign.simps add: assign_PObj)

lemma fold_stepP_PObj: "\<exists>props' proto'. fold (stepP s) es (PObj props proto) = PObj props' proto'"
proof (induction es arbitrary: props proto)
  case Nil
  show ?case by simp
next
  case (Cons e es)
  obtain p q where "stepP s e (PObj props proto) = PObj p q" using stepP_PObj by blast
  then show ?case using Cons.IH[of p q] by simp
qed

lemma typeofP_cleanObjectP: "typeofP (cleanObjectP s x) = typeofP x"
proof (cases "filterOutEmptyFields s")
  case True
  show ?thesis
  proof (cases x)
    case (PObj props proto)
    obtain p q where "fold (stepP s) (for_inP (PObj props proto)) (PObj [] None) = PObj p q"
      using fold_stepP_PObj by blast
    then show ?thesis using PObj True by (simp add: cleanObjectP_PObj del: cleanObjectP.simps)
  qed (use True in simp_all)
next
  case False
  then show ?thesis by (cases x) simp_all
qed

lemma stepP_simp:
  "stepP s (k, v) acc = (if keptP s v then assign k (storedP s v) acc else acc)"
  by (simp add: stepP_def)

lemma fold_stepP_keys:
  assumes "k \<in> fst ` set (props_of (fold (stepP s) es acc))"
  shows "k \<in> fst ` set (props_of acc) \<or> (\<exists>v. (k, v) \<in> set es \<and> keptP s v)"
  using assms
proof (induction es arbitrary: acc)
  case Nil
  then show ?case by simp
next
  case (Cons e es)
  obtain k' v' where e: "e = (k', v')" by (cases e)
  have "k \<in> fst ` set (props_of (fold (stepP s) es (stepP s e acc)))"
    using Cons.prems by simp
  then consider "k \<in> fst ` set (props_of (stepP s e acc))" | "\<exists>v. (k, v) \<in> set es \<and> keptP s v"
    using Cons.IH by blast
  then show ?case
  proof cases
    case 1
    show ?thesis
    proof (cases "keptP s v'")
      case True
      then have "k \<in> fst ` set (props_of (assign k' (storedP s v') acc))"
        using 1 by (simp add: e stepP_simp)
      then have "k = k' \<or> k \<in> fst ` set (props_of acc)"
        using assign_keys[of k' "storedP s v'" acc] by blast
      then show ?thesis using True e by auto
    next
      case False
      then show ?thesis using 1 by (simp add: e stepP_simp)
    qed
  next
    case 2
    then show ?thesis by auto
  qed
qed

lemma fold_stepP_other:
  "k \<notin> fst ` set es \<Longrightarrow>
   map_of (props_of (fold (stepP s) es acc)) k = map_of (props_of acc) k"
proof (induction es arbitrary: acc)
  case Nil
  show ?case by simp
next
  case (Cons e es)
  obtain k' v where e: "e = (k', v)" by (cases e)
  have "k \<noteq> k'" "k \<notin> fst ` set es" using Cons.prems e by auto
  then show ?case using Cons.IH[of "stepP s (k', v) acc"] assign_other[of k k' "storedP s v" acc]
    unfolding e by (simp add: stepP_simp)
qed

lemma fold_stepP_proto_other:
  "''__proto__'' \<notin> fst ` set es \<Longrightarrow> proto_of (fold (stepP s) es acc) = proto_of acc"
proof (induction es arbitrary: acc)
  case Nil
  show ?case by simp
next
  case (Cons e es)
  obtain k' v where e: "e = (k', v)" by (cases e)
  have "k' \<noteq> ''__proto__''" "''__proto__'' \<notin> fst ` set es" using Cons.prems e by auto
  then show ?case using Cons.IH[of "stepP s (k', v) acc"] assign_proto_other[of k' "storedP s v" acc]
    unfolding e by (simp add: stepP_simp)
qed

lemma fold_stepP_kept:
  assumes "distinct (map fst es)" "(k, v) \<in> set es" "keptP s v" "k \<noteq> ''__proto__''"
  shows "map_of (props_of (fold (stepP s) es (PObj ps pr))) k = Some (storedP s v)"
  using assms
proof (induction es arbitrary: ps pr)
  case Nil
  then show ?case by simp
next
  case (Cons e es)
  show ?case
  proof (cases "e = (k, v)")
    case True
    have notin: "k \<notin> fst ` set es" using Cons.prems(1) True by auto
    have "map_of (props_of (stepP s e (PObj ps pr))) k = Some (storedP s v)"
      unfolding True stepP_simp using Cons.prems(3,4) assign_same by simp
    then show ?thesis using fold_stepP_other[OF notin] by simp
  next
    case False
    then have mem: "(k, v) \<in> set es" using Cons.prems(2) by simp
    obtain p q where "stepP s e (PObj ps pr) = PObj p q" using stepP_PObj by blast
    then show ?thesis using Cons.IH[of p q] mem Cons.prems by simp
  qed
qed

lemma assign_setter:
  "''__proto__'' \<notin> fst ` set ps \<Longrightarrow>
   assign ''__proto__'' v (PObj ps None) = (if typeofP v = TObject then PObj ps (Some v) else PObj ps None)"
  by (simp add: dom_clearjunk)

lemma assign_plain:
  "k \<noteq> ''__proto__'' \<Longrightarrow> assign k v (PObj ps pr) = PObj (AList.update k v ps) pr"
  by (simp del: for_inP.simps)

lemma fold_stepP_no_own_proto:
  assumes "distinct (map fst es)" "''__proto__'' \<notin> fst ` set ps"
  shows "''__proto__'' \<notin> fst ` set (props_of (fold (stepP s) es (PObj ps None)))"
  using assms
proof (induction es arbitrary: ps)
  case Nil
  then show ?case by simp
next
  case (Cons e es)
  obtain k v where e: "e = (k, v)" by (cases e)
  show ?case
  proof (cases "k = ''__proto__''")
    case True
    then have notin: "''__proto__'' \<notin> fst ` set es" using Cons.prems(1) e by auto
    have "\<exists>q. stepP s e (PObj ps None) = PObj ps q"
      unfolding e stepP_simp True using assign_setter[OF Cons.prems(2)] by simp
    then obtain q where q: "stepP s e (PObj ps None) = PObj ps q" by blast
    have "''__proto__'' \<notin> fst ` set (props_of (fold (stepP s) es (PObj ps q)))"
    proof
      assume "''__proto__'' \<in> fst ` set (props_of (fold (stepP s) es (PObj ps q)))"
      then have "''__proto__'' \<in> fst ` set (props_of (PObj ps q))
          \<or> (\<exists>v. (''__proto__'', v) \<in> set es \<and> keptP s v)"
        by (rule fold_stepP_keys)
      then show False using notin Cons.prems(2) by force
    qed
    then show ?thesis using q by simp
  next
    case False
    then have "\<exists>ps'. stepP s e (PObj ps None) = PObj ps' None \<and> ''__proto__'' \<notin> fst ` set ps'"
      unfolding e stepP_simp using Cons.prems(2) by (auto simp: assign_plain dom_update simp del: assign.simps)
    then obtain ps' where "stepP s e (PObj ps None) = PObj ps' None" "''__proto__'' \<notin> fst ` set ps'"
      by blast
    then show ?thesis using Cons.IH[of ps'] Cons.prems(1) by simp
  qed
qed

lemma fold_stepP_proto:
  assumes "distinct (map fst es)" "(''__proto__'', v) \<in> set es" "keptP s v"
    and "''__proto__'' \<notin> fst ` set ps"
  shows "proto_of (fold (stepP s) es (PObj ps None))
     = (if typeofP v = TObject then Some (storedP s v) else None)"
  using assms
proof (induction es arbitrary: ps)
  case Nil
  then show ?case by simp
next
  case (Cons e es)
  obtain k w where e: "e = (k, w)" by (cases e)
  show ?case
  proof (cases "k = ''__proto__''")
    case True
    then have notin: "''__proto__'' \<notin> fst ` set es" using Cons.prems(1) e by auto
    then have "w = v" using Cons.prems(2) e True by (auto simp: image_iff)
    have ty: "typeofP (storedP s v) = typeofP v" by (simp add: storedP_def typeofP_cleanObjectP)
    have "stepP s e (PObj ps None)
        = (if typeofP v = TObject then PObj ps (Some (storedP s v)) else PObj ps None)"
      unfolding e stepP_simp True \<open>w = v\<close> using assign_setter[OF Cons.prems(4)] Cons.prems(3) ty
      by simp
    then show ?thesis using fold_stepP_proto_other[OF notin] by simp
  next
    case False
    then have mem: "(''__proto__'', v) \<in> set es" using Cons.prems(2) e by auto
    have "\<exists>ps'. stepP s e (PObj ps None) = PObj ps' None \<and> ''__proto__'' \<notin> fst ` set ps'"
      unfolding e stepP_simp using Cons.prems(4) False
      by (auto simp: assign_plain dom_update simp del: assign.simps)
    then obtain ps' where "stepP s e (PObj ps None) = PObj ps' None" "''__proto__'' \<notin> fst ` set ps'"
      by blast
    then show ?thesis using Cons.IH[of ps'] Cons.prems(1,3) mem by simp
  qed
qed

lemma fold_stepP_no_proto:
  assumes "\<forall>v. (''__proto__'', v) \<in> set es \<longrightarrow> \<not> (keptP s v \<and> typeofP v = TObject)"
  shows "proto_of (fold (stepP s) es (PObj ps None)) = None"
  using assms
proof (induction es arbitrary: ps)
  case Nil
  then show ?case by simp
next
  case (Cons e es)
  obtain k w where e: "e = (k, w)" by (cases e)
  have "\<exists>ps'. stepP s e (PObj ps None) = PObj ps' None"
  proof (cases "k = ''__proto__''")
    case True
    then have "\<not> (keptP s w \<and> typeofP w = TObject)" using Cons.prems e by auto
    then show ?thesis unfolding e stepP_simp True
      by (auto simp: storedP_def simp del: for_inP.simps)
  next
    case False
    then show ?thesis unfolding e stepP_simp by (auto simp: assign_plain simp del: assign.simps)
  qed
  then obtain ps' where "stepP s e (PObj ps None) = PObj ps' None" by blast
  then show ?case using Cons.IH[of ps'] Cons.prems by simp
qed

lemma cleanObjectP_eq_PNull: "cleanObjectP s x = PNull \<longleftrightarrow> x = PNull"
proof (cases x)
  case (PObj props proto)
  obtain p q where "fold (stepP s) (for_inP (PObj props proto)) (PObj [] None) = PObj p q"
    using fold_stepP_PObj by blast
  show ?thesis
  proof (cases "filterOutEmptyFields s")
    case True
    then show ?thesis using PObj \<open>fold (stepP s) (for_inP (PObj props proto)) (PObj [] None) = PObj p q\<close>
      by (simp add: cleanObjectP_PObj del: cleanObjectP.simps for_inP.simps)
  next
    case False
    then show ?thesis using PObj by simp
  qed
qed simp_all

lemma keptP_container:
  assumes "typeofP val = TObject" "val \<noteq> PNull"
  shows "keptP s val \<longleftrightarrow> keys_countP (cleanObjectP s val) \<noteq> Some 0"
proof -
  have "typeofP (cleanObjectP s val) = TObject" "cleanObjectP s val \<noteq> PNull"
    using assms by (simp_all add: typeofP_cleanObjectP cleanObjectP_eq_PNull)
  then show ?thesis using assms
    by (cases "cleanObjectP s val") (auto simp: keptP_def)
qed

lemma keptP_scalar:
  "typeofP val \<noteq> TObject \<Longrightarrow> keptP s val \<longleftrightarrow> val \<noteq> PUndefined \<and> val \<noteq> PStr ''''"
  by (cases val) (auto simp: keptP_def)

lemma for_inP_value:
  assumes "(k, v) \<in> set (for_inP (PObj props proto))" "(k, w) \<in> set (for_inP (PObj props proto))"
  shows "v = w"
proof -
  have "distinct (map fst (for_inP (PObj props proto)))" by simp
  then show ?thesis using assms by (rule eq_key_imp_eq_value)
qed

lemma cleanObjectP_dropped:
  assumes "filterOutEmptyFields s" "(key, val) \<in> set (for_inP (PObj props proto))" "\<not> keptP s val"
  shows "key \<notin> fst ` set (props_of (cleanObjectP s (PObj props proto)))"
proof
  assume "key \<in> fst ` set (props_of (cleanObjectP s (PObj props proto)))"
  then have "key \<in> fst ` set (props_of (fold (stepP s) (for_inP (PObj props proto)) (PObj [] None)))"
    using assms(1) by (simp add: cleanObjectP_PObj del: cleanObjectP.simps for_inP.simps)
  then have "key \<in> fst ` set (props_of (PObj [] None))
      \<or> (\<exists>v. (key, v) \<in> set (for_inP (PObj props proto)) \<and> keptP s v)"
    by (rule fold_stepP_keys)
  then obtain v where "(key, v) \<in> set (for_inP (PObj props proto))" "keptP s v" by auto
  then show False using assms(2,3) for_inP_value by blast
qed

lemma cleanObjectP_kept:
  assumes "filterOutEmptyFields s" "(key, val) \<in> set (for_inP (PObj props proto))" "keptP s val"
    and "key \<noteq> ''__proto__''"
  shows "map_of (props_of (cleanObjectP s (PObj props proto))) key = Some (storedP s val)"
proof -
  have "distinct (map fst (for_inP (PObj props proto)))" by simp
  then have "map_of (props_of (fold (stepP s) (for_inP (PObj props proto)) (PObj [] None))) key
      = Some (storedP s val)"
    using assms(2,3,4) by (rule fold_stepP_kept)
  then show ?thesis using assms(1) by (simp add: cleanObjectP_PObj del: cleanObjectP.simps for_inP.simps)
qed

lemma cleanObjectP_no_own_proto:
  assumes "filterOutEmptyFields s"
  shows "''__proto__'' \<notin> fst ` set (props_of (cleanObjectP s (PObj props proto)))"
proof -
  have "distinct (map fst (for_inP (PObj props proto)))" by simp
  then have "''__proto__'' \<notin> fst ` set (props_of (fold (stepP s) (for_inP (PObj props proto)) (PObj [] None)))"
    by (rule fold_stepP_no_own_proto) simp
  then show ?thesis using assms by (simp add: cleanObjectP_PObj del: cleanObjectP.simps for_inP.simps)
qed

lemma cleanObjectP_proto:
  assumes "filterOutEmptyFields s" "(''__proto__'', val) \<in> set (for_inP (PObj props proto))"
    and "keptP s val"
  shows "proto_of (cleanObjectP s (PObj props proto))
     = (if typeofP val = TObject then Some (storedP s val) else None)"
proof -
  have "distinct (map fst (for_inP (PObj props proto)))" by simp
  then have "proto_of (fold (stepP s) (for_inP (PObj props proto)) (PObj [] None))
     = (if typeofP val = TObject then Some (storedP s val) else None)"
    using assms(2,3) by (rule fold_stepP_proto) simp
  then show ?thesis using assms(1) by (simp add: cleanObjectP_PObj del: cleanObjectP.simps for_inP.simps)
qed

text \<open>
  Claim C6: pruning collapses recursively. With filtering enabled, take a property that
  the loop visits and whose value is an array or an object. When the cleaned value is
  empty (no own key, no element), the result has no own property of that name: the key
  is dropped, not kept with an empty value. When the cleaned value is not empty, the
  result holds it under that name (for the name \<open>__proto__\<close>, as its prototype). So
  \<open>{x: {y: []}, z: [{}]}\<close> is cleaned to \<open>{}\<close>, and in \<open>{x: {y: []}, w: {v: [0]}}\<close>
  the key \<open>x\<close> is dropped and \<open>w\<close> is kept whole.
\<close>

theorem cleanObjectP_prunes_empty_subtrees:
  assumes "filterOutEmptyFields s"
    and "(key, val) \<in> set (for_inP (PObj props proto))"
    and "typeofP val = TObject" and "val \<noteq> PNull"
  shows "(if keys_countP (cleanObjectP s val) = Some 0
          then key \<notin> fst ` set (props_of (cleanObjectP s (PObj props proto)))
          else if key = ''__proto__''
          then proto_of (cleanObjectP s (PObj props proto)) = Some (cleanObjectP s val)
          else map_of (props_of (cleanObjectP s (PObj props proto))) key = Some (cleanObjectP s val))
       \<and> cleanObjectP s (PObj [(''x'', PObj [(''y'', PArr [])] None), (''z'', PArr [PObj [] None])] None)
           = PObj [] None
       \<and> cleanObjectP s
             (PObj [(''x'', PObj [(''y'', PArr [])] None),
                    (''w'', PObj [(''v'', PArr [PNum (Finite 0)])] None)] None)
           = PObj [(''w'', PObj [(''v'', PArr [PNum (Finite 0)])] None)] None"
proof -
  have kept: "keptP s val \<longleftrightarrow> keys_countP (cleanObjectP s val) \<noteq> Some 0"
    using assms(3,4) by (rule keptP_container)
  have stored: "storedP s val = cleanObjectP s val" using assms(3) by (simp add: storedP_def)
  have general: "(if keys_countP (cleanObjectP s val) = Some 0
          then key \<notin> fst ` set (props_of (cleanObjectP s (PObj props proto)))
          else if key = ''__proto__''
          then proto_of (cleanObjectP s (PObj props proto)) = Some (cleanObjectP s val)
          else map_of (props_of (cleanObjectP s (PObj props proto))) key = Some (cleanObjectP s val))"
  proof (cases "keys_countP (cleanObjectP s val) = Some 0")
    case True
    then have "\<not> keptP s val" using kept by simp
    then show ?thesis using True cleanObjectP_dropped[OF assms(1,2)] by simp
  next
    case False
    then have k: "keptP s val" using kept by simp
    show ?thesis
    proof (cases "key = ''__proto__''")
      case True
      then show ?thesis using False cleanObjectP_proto[OF assms(1) _ k, of props proto] assms(2,3) stored
        by simp
    next
      case notproto: False
      then show ?thesis using False cleanObjectP_kept[OF assms(1,2) k] stored by simp
    qed
  qed
  have empty: "cleanObjectP s (PObj [(''x'', PObj [(''y'', PArr [])] None), (''z'', PArr [PObj [] None])] None)
           = PObj [] None"
    using assms(1) by simp
  have whole: "cleanObjectP s
             (PObj [(''x'', PObj [(''y'', PArr [])] None),
                    (''w'', PObj [(''v'', PArr [PNum (Finite 0)])] None)] None)
           = PObj [(''w'', PObj [(''v'', PArr [PNum (Finite 0)])] None)] None"
    using assms(1) by simp
  show ?thesis using general empty whole by blast
qed

text \<open>
  In \<open>{x: {y: []}, w: [""]}\<close> the value of \<open>x\<close> is empty once cleaned and the result
  has no property \<open>x\<close>; the value of \<open>w\<close> is cleaned to itself, an array of one
  element, and the result holds it under \<open>w\<close>.
\<close>

theorem cleanObjectP_prunes_empty_subtrees_witness:
  "filterOutEmptyFields defaultSettings
   \<and> (''x'', PObj [(''y'', PArr [])] None)
       \<in> set (for_inP (PObj [(''x'', PObj [(''y'', PArr [])] None), (''w'', PArr [PStr ''''])] None))
   \<and> keys_countP (cleanObjectP defaultSettings (PObj [(''y'', PArr [])] None)) = Some 0
   \<and> ''x'' \<notin> fst ` set (props_of (cleanObjectP defaultSettings
         (PObj [(''x'', PObj [(''y'', PArr [])] None), (''w'', PArr [PStr ''''])] None)))
   \<and> (''w'', PArr [PStr ''''])
       \<in> set (for_inP (PObj [(''x'', PObj [(''y'', PArr [])] None), (''w'', PArr [PStr ''''])] None))
   \<and> keys_countP (cleanObjectP defaultSettings (PArr [PStr ''''])) = Some 1
   \<and> map_of (props_of (cleanObjectP defaultSettings
         (PObj [(''x'', PObj [(''y'', PArr [])] None), (''w'', PArr [PStr ''''])] None))) ''w''
       = Some (PArr [PStr ''''])"
proof -
  let ?x = "PObj [(''y'', PArr [])] None"
  let ?w = "PArr [PStr '''']"
  let ?props = "[(''x'', ?x), (''w'', ?w)]"
  have f: "filterOutEmptyFields defaultSettings" by (simp add: defaultSettings_def)
  have mx: "(''x'', ?x) \<in> set (for_inP (PObj ?props None))" by simp
  have mw: "(''w'', ?w) \<in> set (for_inP (PObj ?props None))" by simp
  have cx: "keys_countP (cleanObjectP defaultSettings ?x) = Some 0" by (simp add: defaultSettings_def)
  have cw: "cleanObjectP defaultSettings ?w = ?w" by (simp add: defaultSettings_def)
  have kw: "keys_countP (cleanObjectP defaultSettings ?w) = Some 1" by (simp add: defaultSettings_def)
  have "''x'' \<notin> fst ` set (props_of (cleanObjectP defaultSettings (PObj ?props None)))"
    using cleanObjectP_prunes_empty_subtrees[OF f mx] cx by simp
  moreover have "map_of (props_of (cleanObjectP defaultSettings (PObj ?props None))) ''w'' = Some ?w"
    using cleanObjectP_prunes_empty_subtrees[OF f mw] kw cw by simp
  ultimately show ?thesis using f mx mw cx kw by blast
qed

text \<open>
  The same for a property whose value is a scalar: the empty string is dropped, and
  every other scalar, the falsy \<open>0\<close>, \<open>NaN\<close> and \<open>false\<close> among them, is kept under
  its name, unless the name is \<open>__proto__\<close>: there the assignment reaches the setter,
  which ignores a scalar, and the property is lost.
\<close>

theorem cleanObjectP_scalar_property:
  assumes "filterOutEmptyFields s"
    and "(key, val) \<in> set (for_inP (PObj props proto))"
    and "typeofP val \<noteq> TObject" and "val \<noteq> PUndefined"
  shows "if val = PStr '''' \<or> key = ''__proto__''
         then key \<notin> fst ` set (props_of (cleanObjectP s (PObj props proto)))
         else map_of (props_of (cleanObjectP s (PObj props proto))) key = Some val"
proof (cases "val = PStr ''''")
  case True
  then have "\<not> keptP s val" by (simp add: keptP_def)
  then show ?thesis using True cleanObjectP_dropped[OF assms(1,2)] by simp
next
  case False
  then have k: "keptP s val" using assms(3,4) by (simp add: keptP_scalar)
  have stored: "storedP s val = val" using assms(3) by (simp add: storedP_def)
  show ?thesis
  proof (cases "key = ''__proto__''")
    case True
    then show ?thesis using cleanObjectP_no_own_proto[OF assms(1)] by simp
  next
    case notproto: False
    then show ?thesis using False cleanObjectP_kept[OF assms(1,2) k] stored by simp
  qed
qed

text \<open>
  Claim C5 on the code. Its example holds: \<open>{a: "", b: 0, c: false, d: null}\<close> is
  cleaned to \<open>{b: 0, c: false}\<close>. Its rule, that a falsy scalar survives, fails for the
  name \<open>__proto__\<close>: the object that \<open>JSON.parse\<close> builds from
  \<open>{"__proto__": 0, "c": false}\<close> is cleaned to \<open>{c: false}\<close>, without the \<open>0\<close>.
\<close>

theorem cleanObjectP_falsy_scalar_lost:
  "cleanObjectP defaultSettings
     (PObj [(''a'', PStr ''''), (''b'', PNum (Finite 0)), (''c'', PBool False), (''d'', PNull)] None)
     = PObj [(''b'', PNum (Finite 0)), (''c'', PBool False)] None
   \<and> cleanObjectP defaultSettings
     (PObj [(''__proto__'', PNum (Finite 0)), (''c'', PBool False)] None)
     = PObj [(''c'', PBool False)] None"
  by (simp add: defaultSettings_def)

text \<open>
  Claim C2 on the code: a second pass can change the result. The object that
  \<open>JSON.parse\<close> builds from \<open>{"__proto__": {"a": 1}}\<close> is cleaned to an object with no
  own property whose prototype is \<open>{a: 1}\<close>; the second pass visits the inherited
  \<open>a\<close> and returns \<open>{a: 1}\<close>, an object with one own property more than the first
  result.
\<close>

theorem cleanObjectP_second_pass:
  "cleanObjectP defaultSettings (PObj [(''__proto__'', PObj [(''a'', PNum (Finite 1))] None)] None)
     = PObj [] (Some (PObj [(''a'', PNum (Finite 1))] None))
   \<and> cleanObjectP defaultSettings (PObj [] (Some (PObj [(''a'', PNum (Finite 1))] None)))
     = PObj [(''a'', PNum (Finite 1))] None
   \<and> cleanObjectP defaultSettings
       (cleanObjectP defaultSettings (PObj [(''__proto__'', PObj [(''a'', PNum (Finite 1))] None)] None))
     \<noteq> cleanObjectP defaultSettings (PObj [(''__proto__'', PObj [(''a'', PNum (Finite 1))] None)] None)"
  by (simp add: defaultSettings_def)

subsection \<open>Plain data\<close>

text \<open>
  On plain data, where no property is named \<open>__proto__\<close>, the assignment is an update
  of the own properties and the loop visits the own properties: the sanitizer of the
  section on plain data is the sanitizer of this section.
\<close>

lemma embed_props_simps [simp]:
  "embed_props [] = []"
  "embed_props ((k, v) # props) = (k, embed v) # embed_props props"
  "map fst (embed_props props) = map fst props"
  "length (embed_props props) = length props"
  by (simp_all add: embed_props_def comp_def)

lemma embed_JObj [simp]: "embed (JObj props) = PObj (embed_props props) None"
  by (simp add: embed_props_def)

declare embed.simps(7) [simp del]

lemma typeofP_embed [simp]: "typeofP (embed x) = typeof x"
  by (cases x) simp_all

lemma isArrayP_embed [simp]: "isArrayP (embed x) = isArray x"
  by (cases x) simp_all

lemma array_lengthP_embed [simp]: "array_lengthP (embed x) = array_length x"
  by (cases x) simp_all

lemma embed_eq_PNull [simp]: "embed x = PNull \<longleftrightarrow> x = JNull"
  by (cases x) simp_all

lemma embed_eq_PUndefined [simp]: "embed x = PUndefined \<longleftrightarrow> x = JUndefined"
  by (cases x) simp_all

lemma embed_eq_PStr [simp]: "embed x = PStr str \<longleftrightarrow> x = JStr str"
  by (cases x) auto

lemma keys_countP_embed: "plain_data x \<Longrightarrow> keys_countP (embed x) = keys_count x"
  by (cases x) (simp_all add: distinct_clearjunk_id)

lemma update_embed:
  "AList.update k (embed v) (embed_props acc) = embed_props (AList.update k v acc)"
  by (induction acc) auto

lemma for_inP_embed:
  "distinct (map fst props) \<Longrightarrow>
   for_inP (PObj (embed_props props) None) = embed_props props"
  by (simp add: distinct_clearjunk_id)

lemma stepP_embed:
  assumes "k \<noteq> ''__proto__''" "plain_data v" "cleanObjectP s (embed v) = embed (cleanObject s v)"
  shows "stepP s (k, embed v) (PObj (embed_props acc) None)
     = PObj (embed_props (clean_step s (k, v) acc)) None"
proof -
  have kc: "keys_countP (embed (cleanObject s v)) = keys_count (cleanObject s v)"
    using assms(2) by (simp add: keys_countP_embed plain_data_cleanObject)
  have kept: "keptP s (embed v) \<longleftrightarrow>
      v \<noteq> JNull \<and> v \<noteq> JUndefined \<and>
      (if typeof v = TObject
       then (case keys_count (cleanObject s v) of Some n \<Rightarrow> 0 < n | None \<Rightarrow> False)
         \<or> isArray (cleanObject s v) \<and> 0 < array_length (cleanObject s v)
       else v \<noteq> JStr '''')"
    by (simp add: keptP_def assms(3) kc)
  have stored: "storedP s (embed v) = embed (if typeof v = TObject then cleanObject s v else v)"
    by (simp add: storedP_def assms(3))
  show ?thesis
    unfolding stepP_simp kept stored
    using assms(1) by (simp add: assign_plain update_embed clean_step_def Let_def del: assign.simps)
qed

lemma fold_stepP_embed:
  assumes "\<forall>p \<in> set props. fst p \<noteq> ''__proto__'' \<and> plain_data (snd p) \<and>
      cleanObjectP s (embed (snd p)) = embed (cleanObject s (snd p))"
  shows "fold (stepP s) (embed_props props) (PObj (embed_props acc) None)
     = PObj (embed_props (fold (clean_step s) props acc)) None"
  using assms
proof (induction props arbitrary: acc)
  case Nil
  show ?case by simp
next
  case (Cons p props)
  obtain k v where p: "p = (k, v)" by (cases p)
  have "stepP s (k, embed v) (PObj (embed_props acc) None)
     = PObj (embed_props (clean_step s (k, v) acc)) None"
    using Cons.prems p by (intro stepP_embed) auto
  then show ?case using Cons.IH[of "clean_step s (k, v) acc"] Cons.prems p by simp
qed

text \<open>
  The two embeddings of \<open>cleanObject\<close> agree on plain data.
\<close>

theorem cleanObjectP_embed:
  "plain_data x \<Longrightarrow> cleanObjectP s (embed x) = embed (cleanObject s x)"
proof (induction x)
  case (JArr items)
  show ?case
  proof (cases "filterOutEmptyFields s")
    case False
    then show ?thesis by simp
  next
    case True
    have ih: "item \<in> set items \<Longrightarrow> cleanObjectP s (embed item) = embed (cleanObject s item)" for item
      using JArr by simp
    have kc: "item \<in> set items \<Longrightarrow>
        keys_countP (embed (cleanObject s item)) = keys_count (cleanObject s item)" for item
      using JArr.prems by (simp add: keys_countP_embed plain_data_cleanObject)
    let ?P = "\<lambda>item.
            if item = PNull \<or> item = PUndefined then False
            else if typeofP item = TObject \<and> keys_countP (cleanObjectP s item) = Some 0 then False
            else if isArrayP item \<and> array_lengthP item = 0 then False
            else True"
    let ?Q = "\<lambda>item.
            if item = JNull \<or> item = JUndefined then False
            else if typeof item = TObject \<and> keys_count (cleanObject s item) = Some 0 then False
            else if isArray item \<and> array_length item = 0 then False
            else True"
    have "filter ?P (map embed items) = map embed (filter ?Q items)"
      unfolding filter_map comp_def
      by (rule arg_cong[where f = "map embed"], rule filter_cong) (auto simp: ih kc)
    moreover have "map (\<lambda>item. if typeofP item = TObject then cleanObjectP s item else item)
        (map embed (filter ?Q items))
      = map embed (map (\<lambda>item. if typeof item = TObject then cleanObject s item else item)
        (filter ?Q items))"
      by (auto simp: ih)
    ultimately show ?thesis using True by simp
  qed
next
  case (JObj props)
  show ?case
  proof (cases "filterOutEmptyFields s")
    case False
    then show ?thesis by simp
  next
    case True
    have d: "distinct (map fst props)" using JObj.prems by simp
    have "\<forall>p \<in> set props. fst p \<noteq> ''__proto__'' \<and> plain_data (snd p) \<and>
        cleanObjectP s (embed (snd p)) = embed (cleanObject s (snd p))"
    proof
      fix p assume p: "p \<in> set props"
      obtain k v where kv: "p = (k, v)" by (cases p)
      have "plain_data v" using JObj.prems p kv by auto
      moreover have "k \<noteq> ''__proto__''" using JObj.prems p kv by force
      moreover have "cleanObjectP s (embed v) = embed (cleanObject s v)"
        using JObj.IH[of p v] p kv \<open>plain_data v\<close> by simp
      ultimately show "fst p \<noteq> ''__proto__'' \<and> plain_data (snd p) \<and>
        cleanObjectP s (embed (snd p)) = embed (cleanObject s (snd p))"
        using kv by simp
    qed
    then have "fold (stepP s) (embed_props props) (PObj (embed_props []) None)
       = PObj (embed_props (fold (clean_step s) props [])) None"
      by (rule fold_stepP_embed)
    then show ?thesis using True d
      by (simp add: cleanObjectP_PObj for_inP_embed cleanObject_JObj_step
          del: cleanObjectP.simps cleanObject.simps for_inP.simps)
  qed
qed simp_all

text \<open>
  On plain data a second pass returns the result of the first.
\<close>

theorem cleanObjectP_idempotent_plain:
  assumes "plain_data x"
  shows "cleanObjectP s (cleanObjectP s (embed x)) = cleanObjectP s (embed x)"
proof -
  have "plain_data (cleanObject s x)" using assms by (rule plain_data_cleanObject)
  then have "cleanObjectP s (embed (cleanObject s x)) = embed (cleanObject s (cleanObject s x))"
    by (rule cleanObjectP_embed)
  then show ?thesis using assms by (simp add: cleanObjectP_embed cleanObject_fixed)
qed

section \<open>The sanitizer does not write to its argument\<close>

text \<open>
  On the heap, every step of \<open>cleanObject\<close> either allocates a cell or writes to the
  object \<open>newObj\<close> that the same call allocated. The heap after a call therefore
  extends the heap before it.
\<close>

lemma frameD: "frame c \<Longrightarrow> c h = (r, h') \<Longrightarrow> prefix h h'"
  by (auto simp: frame_def dest: spec[of _ h])

lemma filter_cb_frame:
  assumes "\<And>v. frame (clean v)"
  shows "frame (filter_cb clean item)"
  unfolding frame_def filter_cb_def
  using assms by (auto split: if_splits sum.splits prod.splits dest: frameD)

lemma map_cb_frame:
  assumes "\<And>v. frame (clean v)"
  shows "frame (map_cb clean item)"
  unfolding frame_def map_cb_def
  using assms by (auto simp: frame_def)

lemma filter_loop_frame:
  assumes "\<And>v. frame (cb v)"
  shows "frame (filter_loop cb items)"
  unfolding frame_def
proof (induction items)
  case Nil
  then show ?case by simp
next
  case (Cons item rest)
  show ?case
  proof
    fix h
    obtain r h1 where 1: "cb item h = (r, h1)" by (cases "cb item h")
    have p1: "prefix h h1" using assms 1 by (rule frameD)
    have "prefix h1 (snd (filter_loop cb rest h1))" using Cons by blast
    then have "prefix h (snd (filter_loop cb rest h1))" using p1 by (rule prefix_order.trans[rotated])
    then show "prefix h (snd (filter_loop cb (item # rest) h))"
      using 1 p1 by (auto split: sum.splits prod.splits)
  qed
qed

lemma map_loop_frame:
  assumes "\<And>v. frame (cb v)"
  shows "frame (map_loop cb items)"
  unfolding frame_def
proof (induction items)
  case Nil
  then show ?case by simp
next
  case (Cons item rest)
  show ?case
  proof
    fix h
    obtain r h1 where 1: "cb item h = (r, h1)" by (cases "cb item h")
    have p1: "prefix h h1" using assms 1 by (rule frameD)
    have "prefix h1 (snd (map_loop cb rest h1))" using Cons by blast
    then have "prefix h (snd (map_loop cb rest h1))" using p1 by (rule prefix_order.trans[rotated])
    then show "prefix h (snd (map_loop cb (item # rest) h))"
      using 1 p1 by (auto split: sum.splits prod.splits)
  qed
qed

lemma below_refl: "below k h h"
  by (simp add: below_def)

lemma below_trans: "below k h h1 \<Longrightarrow> below k h1 h2 \<Longrightarrow> below k h h2"
  by (simp add: below_def)

lemma prefix_below: "prefix h h' \<Longrightarrow> k \<le> length h \<Longrightarrow> below k h h'"
  by (auto simp: below_def prefix_def)

lemma set_prop_below: "k \<le> a \<Longrightarrow> below k h (set_prop h a key v)"
  by (auto simp: below_def set_prop_def split: option.splits cell.splits)

lemma length_set_prop [simp]: "length (set_prop h a key v) = length h"
  by (simp add: set_prop_def split: option.splits cell.splits)

lemma for_in_below:
  assumes "\<And>v. frame (clean v)"
  shows "newObj < length h \<Longrightarrow> below newObj h (snd (for_in clean newObj props h))"
proof (induction props arbitrary: h)
  case Nil
  then show ?case by (simp add: below_refl)
next
  case (Cons p rest)
  obtain key val where p: "p = (key, val)" by (cases p)
  have step: "below newObj h (snd (for_in clean newObj rest h1))" if "below newObj h h1" for h1
  proof -
    have "newObj < length h1" using that Cons.prems by (auto simp: below_def)
    then have "below newObj h1 (snd (for_in clean newObj rest h1))" by (rule Cons.IH)
    with that show ?thesis by (rule below_trans)
  qed
  show ?case
  proof (cases "val = HNull \<or> val = HUndefined")
    case True
    then show ?thesis using p step[of h] by (auto simp: below_refl)
  next
    case False
    show ?thesis
    proof (cases "htypeof val = TObject")
      case True
      obtain r h1 where c: "clean val h = (r, h1)" by (cases "clean val h")
      have "prefix h h1" using assms c by (rule frameD)
      then have b1: "below newObj h h1" using Cons.prems by (simp add: prefix_below)
      have b2: "below newObj h (set_prop h1 newObj key w)" for w
        using b1 set_prop_below[of newObj newObj h1] by (blast intro: below_trans)
      show ?thesis
        using p False True c b1 step[OF b1] step[OF b2]
        by (auto split: sum.splits)
    next
      case scalar: False
      have "below newObj h (set_prop h newObj key val)" by (simp add: set_prop_below)
      then show ?thesis
        using p False scalar step[of h] step[of "set_prop h newObj key val"]
        by (auto simp: below_refl)
    qed
  qed
qed

lemma cleanObjectH_frame: "frame (cleanObjectH s n obj)"
proof (induction n arbitrary: obj)
  case 0
  then show ?case by (simp add: frame_def)
next
  case (Suc n)
  show ?case
    unfolding frame_def
  proof
    fix h
    show "prefix h (snd (cleanObjectH s (Suc n) obj h))"
    proof (cases "filterOutEmptyFields s")
      case False
      then show ?thesis by simp
    next
      case True
      show ?thesis
      proof (cases obj)
        case (HRef a)
        show ?thesis
        proof (cases "lookup h a")
          case None
          then show ?thesis using True HRef by simp
        next
          case (Some c)
          show ?thesis
          proof (cases c)
            case (ArrCell items)
            obtain r1 h1 where f: "filter_loop (filter_cb (cleanObjectH s n)) items h = (r1, h1)"
              by (cases "filter_loop (filter_cb (cleanObjectH s n)) items h")
            have p1: "prefix h h1"
              using filter_loop_frame[of "filter_cb (cleanObjectH s n)" items] f Suc
              by (auto intro: filter_cb_frame dest: frameD)
            show ?thesis
            proof (cases r1)
              case (Inl e)
              then show ?thesis using True HRef Some ArrCell f p1 by simp
            next
              case (Inr kept)
              obtain r3 h3 where m: "map_loop (map_cb (cleanObjectH s n)) kept (h1 @ [ArrCell kept]) = (r3, h3)"
                by (cases "map_loop (map_cb (cleanObjectH s n)) kept (h1 @ [ArrCell kept])")
              have "prefix (h1 @ [ArrCell kept]) h3"
                using map_loop_frame[of "map_cb (cleanObjectH s n)" kept] m Suc
                by (auto intro: map_cb_frame dest: frameD)
              then have p3: "prefix h h3" using p1
                by (meson append_prefixD prefix_order.trans)
              then have "prefix h (h3 @ [x])" for x
                by (meson prefix_order.trans prefixI)
              then show ?thesis
                using True HRef Some ArrCell f Inr m p3
                by (auto simp: alloc_def split: sum.splits)
            qed
          next
            case (ObjCell props)
            have "below (length h) (h @ [ObjCell []])
                (snd (for_in (cleanObjectH s n) (length h) props (h @ [ObjCell []])))"
              using for_in_below[of "cleanObjectH s n" "length h" "h @ [ObjCell []]" props] Suc
              by simp
            then have "take (length h) (snd (for_in (cleanObjectH s n) (length h) props (h @ [ObjCell []]))) = h"
              by (simp add: below_def)
            then have "prefix h (snd (for_in (cleanObjectH s n) (length h) props (h @ [ObjCell []])))"
              by (metis take_is_prefix)
            then show ?thesis
              using True HRef Some ObjCell
              by (auto simp: alloc_def split: sum.splits prod.splits)
          qed
        qed
      qed (use True in auto)
    qed
  qed
qed

lemma lookup_prefix: "prefix h h' \<Longrightarrow> lookup h a = Some c \<Longrightarrow> lookup h' a = Some c"
  by (auto simp: lookup_def prefix_def nth_append split: if_splits)

lemma those_map_defined:
  "those (map f xs) = Some ys \<Longrightarrow> x \<in> set xs \<Longrightarrow> \<exists>y. f x = Some y"
  by (induction xs arbitrary: ys) (auto split: option.splits)

lemma deref_prefix: "prefix h h' \<Longrightarrow> deref m h v = Some t \<Longrightarrow> deref m h' v = Some t"
proof (induction m arbitrary: v t)
  case 0
  then show ?case by (cases v) simp_all
next
  case (Suc m)
  show ?case
  proof (cases v)
    case (HRef a)
    from Suc.prems(2) HRef obtain c where c: "lookup h a = Some c" by (auto split: option.splits)
    then have c': "lookup h' a = Some c" using Suc.prems(1) by (rule lookup_prefix[rotated])
    have same: "deref m h' x = deref m h x" if "deref m h x = Some y" for x y
      using Suc.IH[OF Suc.prems(1) that] that by simp
    show ?thesis
    proof (cases c)
      case (ArrCell items)
      with Suc.prems(2) HRef c obtain ts where ts: "those (map (deref m h) items) = Some ts"
        by auto
      have "map (deref m h') items = map (deref m h) items"
      proof (intro map_cong refl)
        fix x assume "x \<in> set items"
        then obtain y where "deref m h x = Some y" using those_map_defined[OF ts] by blast
        then show "deref m h' x = deref m h x" by (rule same)
      qed
      then show ?thesis using Suc.prems(2) HRef c c' ArrCell by (simp del: map_eq_conv)
    next
      case (ObjCell props)
      let ?f = "\<lambda>h p. map_option (Pair (fst p)) (deref m h (snd p))"
      from Suc.prems(2) HRef c ObjCell obtain ts where ts: "those (map (?f h) props) = Some ts"
        by auto
      have "map (?f h') props = map (?f h) props"
      proof (intro map_cong refl)
        fix p assume "p \<in> set props"
        then obtain y where "?f h p = Some y" using those_map_defined[OF ts] by blast
        then obtain z where "deref m h (snd p) = Some z" by auto
        then show "?f h' p = ?f h p" using same by simp
      qed
      then show ?thesis using Suc.prems(2) HRef c c' ObjCell by (simp del: map_eq_conv)
    qed
  qed (use Suc.prems in simp_all)
qed

text \<open>
  Claim C4: the sanitizer never mutates its argument. When \<open>cleanObject\<close> returns
  or throws, every cell that existed before the call holds what it held, and the
  argument, read from the heap as a tree, is the tree it was before the call.
\<close>

theorem cleanObjectH_no_mutation:
  "take (length h) (snd (cleanObjectH s n x h)) = h \<and>
   (\<forall>m t. deref m h x = Some t \<longrightarrow> deref m (snd (cleanObjectH s n x h)) x = Some t)"
proof -
  have "prefix h (snd (cleanObjectH s n x h))"
    using cleanObjectH_frame by (auto simp: frame_def)
  then show ?thesis by (auto simp: prefix_def deref_prefix)
qed

text \<open>
  The object \<open>{a: "", b: [null, 1]}\<close>: the call returns the fresh object
  \<open>{b: [1]}\<close> in three new cells, and the two cells of the argument are unchanged.
  The object \<open>{a: {a: ...}}\<close> that holds itself: the call exhausts the stack and
  throws, and the cell of the argument is unchanged.
\<close>

theorem cleanObjectH_no_mutation_witness:
  "cleanObjectH defaultSettings 3 (HRef 0)
     [ObjCell [(''a'', HStr ''''), (''b'', HRef 1)], ArrCell [HNull, HNum (Finite 1)]]
   = (Inr (HRef 2),
       [ObjCell [(''a'', HStr ''''), (''b'', HRef 1)], ArrCell [HNull, HNum (Finite 1)],
        ObjCell [(''b'', HRef 4)], ArrCell [HNum (Finite 1)], ArrCell [HNum (Finite 1)]]) \<and>
   take 2
       [ObjCell [(''a'', HStr ''''), (''b'', HRef 1)], ArrCell [HNull, HNum (Finite 1)],
        ObjCell [(''b'', HRef 4)], ArrCell [HNum (Finite 1)], ArrCell [HNum (Finite 1)]]
   = [ObjCell [(''a'', HStr ''''), (''b'', HRef 1)], ArrCell [HNull, HNum (Finite 1)]] \<and>
   deref 2 [ObjCell [(''a'', HStr ''''), (''b'', HRef 1)], ArrCell [HNull, HNum (Finite 1)]] (HRef 0)
   = Some (JObj [(''a'', JStr ''''), (''b'', JArr [JNull, JNum (Finite 1)])]) \<and>
   deref 2
       [ObjCell [(''a'', HStr ''''), (''b'', HRef 1)], ArrCell [HNull, HNum (Finite 1)],
        ObjCell [(''b'', HRef 4)], ArrCell [HNum (Finite 1)], ArrCell [HNum (Finite 1)]] (HRef 0)
   = Some (JObj [(''a'', JStr ''''), (''b'', JArr [JNull, JNum (Finite 1)])]) \<and>
   cleanObjectH defaultSettings 2 (HRef 0) [ObjCell [(''a'', HRef 0)]]
   = (Inl (RangeError ''Maximum call stack size exceeded''),
       [ObjCell [(''a'', HRef 0)], ObjCell [], ObjCell []]) \<and>
   take 1 [ObjCell [(''a'', HRef 0)], ObjCell [], ObjCell []] = [ObjCell [(''a'', HRef 0)]]"
proof -
  let ?h = "[ObjCell [(''a'', HStr ''''), (''b'', HRef 1)], ArrCell [HNull, HNum (Finite 1)]]"
  let ?h' = "[ObjCell [(''a'', HStr ''''), (''b'', HRef 1)], ArrCell [HNull, HNum (Finite 1)],
        ObjCell [(''b'', HRef 4)], ArrCell [HNum (Finite 1)], ArrCell [HNum (Finite 1)]]"
  let ?c = "[ObjCell [(''a'', HRef 0)]]"
  let ?c' = "[ObjCell [(''a'', HRef 0)], ObjCell [], ObjCell []]"
  have run: "cleanObjectH defaultSettings 3 (HRef 0) ?h = (Inr (HRef 2), ?h')"
    by (simp add: numeral_3_eq_3 defaultSettings_def lookup_def alloc_def filter_cb_def map_cb_def
        set_prop_def)
  have cyc: "cleanObjectH defaultSettings 2 (HRef 0) ?c
      = (Inl (RangeError ''Maximum call stack size exceeded''), ?c')"
    by (simp add: numeral_2_eq_2 defaultSettings_def lookup_def alloc_def)
  have before: "deref 2 ?h (HRef 0) = Some (JObj [(''a'', JStr ''''), (''b'', JArr [JNull, JNum (Finite 1)])])"
    by (simp add: numeral_2_eq_2 lookup_def)
  note T = cleanObjectH_no_mutation[of ?h defaultSettings 3 "HRef 0"]
  have "take (length ?h) ?h' = ?h" using T run by simp
  then have frame: "take 2 ?h' = ?h" by simp
  have after: "deref 2 ?h' (HRef 0) = Some (JObj [(''a'', JStr ''''), (''b'', JArr [JNull, JNum (Finite 1)])])"
    using T before unfolding run by simp
  note C = cleanObjectH_no_mutation[of ?c defaultSettings 2 "HRef 0"]
  have "take (length ?c) ?c' = ?c" using C cyc by simp
  then have frame_cyc: "take 1 ?c' = ?c" by simp
  show ?thesis using run frame before after cyc frame_cyc by blast
qed

section \<open>The sanitizer on the heap computes the sanitizer on plain data\<close>

text \<open>
  The two embeddings of \<open>cleanObject\<close> agree. The values that \<open>cleanObject\<close> returns
  on the heap are scalars or refer to cells that the call allocated, and what such a
  cell holds refers to such cells again: the tree of the result does not depend on the
  cells that were there before, nor on the object under construction in the caller.
\<close>

lemma cleanObject_JArr_step:
  "cleanObject s (JArr items) =
     (if \<not> filterOutEmptyFields s then JArr items
      else JArr (map (map_fn s) (filter (filter_pred s) items)))"
  by (simp add: filter_pred_def map_fn_def)

lemma stable_deref: "stable lo hi h m v t \<Longrightarrow> deref m h v = Some t"
  by (simp add: stable_def)

lemma stable_widen:
  assumes "stable lo hi h m v t" and "lo' \<le> lo" and "hi \<le> hi'"
    and "\<And>a. lo \<le> a \<Longrightarrow> a < hi \<Longrightarrow> lookup h' a = lookup h a"
  shows "stable lo' hi' h' m v t"
  unfolding stable_def
proof (intro allI impI)
  fix h2 assume a: "\<forall>a. lo' \<le> a \<and> a < hi' \<longrightarrow> lookup h2 a = lookup h' a"
  have "\<forall>a. lo \<le> a \<and> a < hi \<longrightarrow> lookup h2 a = lookup h a"
    using a assms(2,3,4) by (metis le_trans less_le_trans)
  then show "deref m h2 v = Some t" using assms(1) by (simp add: stable_def)
qed

lemma deref_no_ref: "\<forall>a. v \<noteq> HRef a \<Longrightarrow> deref m h v = deref m' h' v"
  by (cases v) simp_all

lemma stable_scalar: "\<forall>a. v \<noteq> HRef a \<Longrightarrow> deref m h v = Some t \<Longrightarrow> stable lo hi h' m v t"
  unfolding stable_def using deref_no_ref by metis

lemma lookup_prefix_below: "prefix h h' \<Longrightarrow> a < length h \<Longrightarrow> lookup h' a = lookup h a"
  by (auto simp: lookup_def prefix_def nth_append)

lemma those_map_iff:
  "those (map f xs) = Some ys \<longleftrightarrow> list_all2 (\<lambda>x y. f x = Some y) xs ys"
proof (induction xs arbitrary: ys)
  case Nil
  then show ?case by auto
next
  case (Cons x xs)
  show ?case
    by (cases ys) (auto simp: Cons split: option.splits)
qed

lemma deref_shape:
  assumes "deref m h v = Some t"
  shows "htypeof v = typeof t" and "v = HNull \<longleftrightarrow> t = JNull" and "v = HUndefined \<longleftrightarrow> t = JUndefined"
    and "v = HStr '''' \<longleftrightarrow> t = JStr ''''"
    and "(\<exists>a. v = HRef a) \<longleftrightarrow> (typeof t = TObject \<and> t \<noteq> JNull)"
proof -
  have "htypeof v = typeof t \<and> (v = HNull \<longleftrightarrow> t = JNull) \<and> (v = HUndefined \<longleftrightarrow> t = JUndefined)
    \<and> (v = HStr '''' \<longleftrightarrow> t = JStr '''') \<and> ((\<exists>a. v = HRef a) \<longleftrightarrow> (typeof t = TObject \<and> t \<noteq> JNull))"
  proof (cases v)
    case (HRef a)
    then obtain m' where m: "m = Suc m'" using assms by (cases m) auto
    then show ?thesis using assms HRef
      by (auto split: option.splits cell.splits)
  qed (use assms in auto)
  then show "htypeof v = typeof t" and "v = HNull \<longleftrightarrow> t = JNull" and "v = HUndefined \<longleftrightarrow> t = JUndefined"
    and "v = HStr '''' \<longleftrightarrow> t = JStr ''''"
    and "(\<exists>a. v = HRef a) \<longleftrightarrow> (typeof t = TObject \<and> t \<noteq> JNull)"
    by blast+
qed

lemma those_length: "those xs = Some ys \<Longrightarrow> length ys = length xs"
  by (induction xs arbitrary: ys) (auto split: option.splits)

lemma deref_keys:
  assumes "deref m h v = Some t" and "keys_count t = Some k"
  shows "hkeys_count h v = Inr k"
proof (cases v)
  case (HRef a)
  then obtain m' where m: "m = Suc m'" using assms by (cases m) auto
  then show ?thesis using assms HRef
    by (auto split: option.splits cell.splits dest!: those_length)
qed (use assms in auto)

lemma deref_array:
  assumes "deref m h v = Some t"
  shows "hisArray h v = isArray t" and "harray_length h v = array_length t"
proof -
  have "hisArray h v = isArray t \<and> harray_length h v = array_length t"
  proof (cases v)
    case (HRef a)
    then obtain m' where m: "m = Suc m'" using assms by (cases m) auto
    then show ?thesis using assms HRef
      by (auto split: option.splits cell.splits dest!: those_length)
  qed (use assms in auto)
  then show "hisArray h v = isArray t" and "harray_length h v = array_length t" by simp_all
qed

lemma filter_cb_refines:
  assumes "refines s m clean" and "deref m h item = Some t"
  shows "\<exists>h1. filter_cb clean item h = (Inr (filter_pred s t), h1) \<and> prefix h h1"
proof (cases "item = HNull \<or> item = HUndefined")
  case True
  then show ?thesis
    using deref_shape(2,3)[OF assms(2)] by (auto simp: filter_cb_def filter_pred_def)
next
  case False
  then have t: "t \<noteq> JNull" "t \<noteq> JUndefined" using deref_shape(2,3)[OF assms(2)] by auto
  show ?thesis
  proof (cases "htypeof item = TObject")
    case True
    then have ty: "typeof t = TObject" using deref_shape(1)[OF assms(2)] by simp
    from assms obtain r h1 where c: "clean item h = (Inr r, h1)" and p: "prefix h h1"
      and st: "stable (length h) (length h1) h1 m r (cleanObject s t)"
      unfolding refines_def by blast
    obtain k where k: "keys_count (cleanObject s t) = Some k"
      using keys_count_cleanObject_defined[OF ty t(1)] by blast
    have hk: "hkeys_count h1 r = Inr k" using stable_deref[OF st] k by (rule deref_keys)
    have "deref m h1 item = Some t" using p assms(2) by (rule deref_prefix)
    then have arr: "hisArray h1 item = isArray t" "harray_length h1 item = array_length t"
      by (rule deref_array)+
    show ?thesis
      using False True c p hk k arr t ty
      by (auto simp: filter_cb_def filter_pred_def)
  next
    case scalar: False
    then have ty: "typeof t \<noteq> TObject" using deref_shape(1)[OF assms(2)] by simp
    have arr: "hisArray h item = isArray t" "harray_length h item = array_length t"
      using assms(2) by (rule deref_array)+
    show ?thesis
      using False scalar arr t ty by (auto simp: filter_cb_def filter_pred_def)
  qed
qed

lemma filter_loop_refines:
  assumes "refines s m clean"
  shows "list_all2 (\<lambda>v t. deref m h0 v = Some t) items ts \<Longrightarrow> prefix h0 h \<Longrightarrow>
    \<exists>kept h'. filter_loop (filter_cb clean) items h = (Inr kept, h') \<and> prefix h h' \<and>
      list_all2 (\<lambda>v t. deref m h0 v = Some t) kept (filter (filter_pred s) ts)"
proof (induction items arbitrary: ts h)
  case Nil
  then show ?case by simp
next
  case (Cons item rest)
  from Cons.prems(1) obtain t ts' where ts: "ts = t # ts'" and d: "deref m h0 item = Some t"
    and r: "list_all2 (\<lambda>v t. deref m h0 v = Some t) rest ts'"
    by (auto simp: list_all2_Cons1)
  have "deref m h item = Some t" using Cons.prems(2) d by (rule deref_prefix)
  then obtain h1 where c: "filter_cb clean item h = (Inr (filter_pred s t), h1)" and p1: "prefix h h1"
    using filter_cb_refines[OF assms] by blast
  have "prefix h0 h1" using Cons.prems(2) p1 by (rule prefix_order.trans)
  then obtain kept h' where l: "filter_loop (filter_cb clean) rest h1 = (Inr kept, h')"
    and p2: "prefix h1 h'"
    and k: "list_all2 (\<lambda>v t. deref m h0 v = Some t) kept (filter (filter_pred s) ts')"
    using Cons.IH[OF r] by blast
  have "prefix h h'" using p1 p2 by (rule prefix_order.trans)
  then show ?case using c l k d ts by auto
qed

lemma map_loop_refines:
  assumes "refines s m clean"
  shows "list_all2 (\<lambda>v t. deref m h0 v = Some t) kept ts \<Longrightarrow> prefix h0 h \<Longrightarrow>
    \<exists>mapped h'. map_loop (map_cb clean) kept h = (Inr mapped, h') \<and> prefix h h' \<and>
      list_all2 (\<lambda>v t. stable (length h) (length h') h' m v (map_fn s t)) mapped ts"
proof (induction kept arbitrary: ts h)
  case Nil
  then show ?case by simp
next
  case (Cons item rest)
  from Cons.prems(1) obtain t ts' where ts: "ts = t # ts'" and d0: "deref m h0 item = Some t"
    and r: "list_all2 (\<lambda>v t. deref m h0 v = Some t) rest ts'"
    by (auto simp: list_all2_Cons1)
  have d: "deref m h item = Some t" using Cons.prems(2) d0 by (rule deref_prefix)
  have "\<exists>v h1. map_cb clean item h = (Inr v, h1) \<and> prefix h h1 \<and>
      stable (length h) (length h1) h1 m v (map_fn s t)"
  proof (cases "htypeof item = TObject")
    case True
    then have "typeof t = TObject" using deref_shape(1)[OF d] by simp
    then show ?thesis
      using assms d True unfolding refines_def by (auto simp: map_cb_def map_fn_def)
  next
    case False
    then have ty: "typeof t \<noteq> TObject" using deref_shape(1)[OF d] by simp
    have "\<forall>a. item \<noteq> HRef a" using False by auto
    then have "stable (length h) (length h) h m item t" using d by (rule stable_scalar)
    then show ?thesis using False ty by (auto simp: map_cb_def map_fn_def)
  qed
  then obtain v h1 where c: "map_cb clean item h = (Inr v, h1)" and p1: "prefix h h1"
    and st: "stable (length h) (length h1) h1 m v (map_fn s t)"
    by blast
  have "prefix h0 h1" using Cons.prems(2) p1 by (rule prefix_order.trans)
  then obtain mapped h' where l: "map_loop (map_cb clean) rest h1 = (Inr mapped, h')"
    and p2: "prefix h1 h'"
    and k: "list_all2 (\<lambda>v t. stable (length h1) (length h') h' m v (map_fn s t)) mapped ts'"
    using Cons.IH[OF r] by blast
  have len: "length h \<le> length h1" "length h1 \<le> length h'"
    using p1 p2 by (auto simp: prefix_def)
  have st': "stable (length h) (length h') h' m v (map_fn s t)"
    using st _ len(2)
  proof (rule stable_widen)
    show "lookup h' a = lookup h1 a" if "a < length h1" for a
      using p2 that by (rule lookup_prefix_below)
  qed simp
  have k': "list_all2 (\<lambda>v t. stable (length h) (length h') h' m v (map_fn s t)) mapped ts'"
    using k
  proof (rule list_all2_mono)
    fix v t assume "stable (length h1) (length h') h' m v (map_fn s t)"
    then show "stable (length h) (length h') h' m v (map_fn s t)"
      using len(1) by (rule stable_widen) simp_all
  qed
  have "prefix h h'" using p1 p2 by (rule prefix_order.trans)
  then show ?case using c l st' k' ts by auto
qed

lemma list_all2_update:
  assumes "list_all2 (\<lambda>p q. fst p = fst q \<and> R (snd p) (snd q)) acc pacc" and "R v t"
  shows "list_all2 (\<lambda>p q. fst p = fst q \<and> R (snd p) (snd q))
    (AList.update k v acc) (AList.update k t pacc)"
  using assms(1)
proof (induction acc arbitrary: pacc)
  case Nil
  then show ?case using assms(2) by simp
next
  case (Cons p acc)
  then obtain q pacc' where "pacc = q # pacc'" by (cases pacc) auto
  with Cons assms(2) show ?case by auto
qed

lemma lookup_set_prop:
  "lookup h a = Some (ObjCell ps) \<Longrightarrow>
     lookup (set_prop h a k v) b = (if b = a then Some (ObjCell (AList.update k v ps)) else lookup h b)"
  by (auto simp: set_prop_def lookup_def split: if_splits)

lemma prefix_set_prop: "prefix h0 h \<Longrightarrow> length h0 \<le> a \<Longrightarrow> prefix h0 (set_prop h a k v)"
  by (auto simp: set_prop_def prefix_def list_update_append split: option.splits cell.splits)

lemma for_in_refines:
  assumes "refines s m clean"
  shows "list_all2 (\<lambda>p q. fst p = fst q \<and> deref m h0 (snd p) = Some (snd q)) props tprops \<Longrightarrow>
    prefix h0 h \<Longrightarrow> length h0 \<le> newObj \<Longrightarrow> newObj < length h \<Longrightarrow>
    lookup h newObj = Some (ObjCell acc) \<Longrightarrow>
    list_all2 (\<lambda>p q. fst p = fst q \<and> stable (Suc newObj) (length h) h m (snd p) (snd q)) acc pacc \<Longrightarrow>
    \<exists>h' acc'. for_in clean newObj props h = (Inr (), h') \<and> length h \<le> length h' \<and>
      lookup h' newObj = Some (ObjCell acc') \<and>
      list_all2 (\<lambda>p q. fst p = fst q \<and> stable (Suc newObj) (length h') h' m (snd p) (snd q))
        acc' (fold (clean_step s) tprops pacc)"
proof (induction props arbitrary: tprops h acc pacc)
  case Nil
  then show ?case by auto
next
  case (Cons p rest)
  obtain key val where p: "p = (key, val)" by (cases p)
  from Cons.prems(1) p obtain t trest where tp: "tprops = (key, t) # trest"
    and d0: "deref m h0 val = Some t"
    and r: "list_all2 (\<lambda>p q. fst p = fst q \<and> deref m h0 (snd p) = Some (snd q)) rest trest"
    by (cases tprops) auto
  have d: "deref m h val = Some t" using Cons.prems(2) d0 by (rule deref_prefix)
  note sh = deref_shape[OF d]
  \<comment> \<open>the rest of the loop, from any heap that keeps what the accumulator needs\<close>
  have continue: "\<exists>h' acc'. for_in clean newObj rest h1 = (Inr (), h') \<and> length h \<le> length h' \<and>
      lookup h' newObj = Some (ObjCell acc') \<and>
      list_all2 (\<lambda>p q. fst p = fst q \<and> stable (Suc newObj) (length h') h' m (snd p) (snd q))
        acc' (fold (clean_step s) trest pacc1)"
    if "prefix h0 h1" "length h \<le> length h1" "lookup h1 newObj = Some (ObjCell acc1)"
      "list_all2 (\<lambda>p q. fst p = fst q \<and> stable (Suc newObj) (length h1) h1 m (snd p) (snd q)) acc1 pacc1"
    for h1 acc1 pacc1
  proof -
    have "newObj < length h1" using that(2) Cons.prems(4) by simp
    from Cons.IH[OF r that(1) Cons.prems(3) this that(3,4)] that(2)
    show ?thesis by (meson le_trans)
  qed
  \<comment> \<open>what the accumulator holds stays readable after an extension and a write to \<open>newObj\<close>\<close>
  have keep_acc: "list_all2 (\<lambda>p q. fst p = fst q \<and> stable (Suc newObj) (length h1) h1 m (snd p) (snd q)) acc pacc"
    if "length h \<le> length h1" "\<And>a. Suc newObj \<le> a \<Longrightarrow> a < length h \<Longrightarrow> lookup h1 a = lookup h a"
    for h1
    using Cons.prems(6)
  proof (rule list_all2_mono)
    fix p q assume "fst p = fst q \<and> stable (Suc newObj) (length h) h m (snd p) (snd q)"
    then show "fst p = fst q \<and> stable (Suc newObj) (length h1) h1 m (snd p) (snd q)"
      using that stable_widen[of "Suc newObj" "length h" h m "snd p" "snd q" "Suc newObj" "length h1" h1]
      by auto
  qed
  show ?case
  proof (cases "val = HNull \<or> val = HUndefined")
    case True
    then have "t = JNull \<or> t = JUndefined" using sh(2,3) by auto
    then have "clean_step s (key, t) pacc = pacc" by (auto simp: clean_step_def)
    then show ?thesis
      using True p tp continue[OF Cons.prems(2) le_refl Cons.prems(5,6)] by auto
  next
    case False
    then have tn: "t \<noteq> JNull" "t \<noteq> JUndefined" using sh(2,3) by auto
    show ?thesis
    proof (cases "htypeof val = TObject")
      case True
      then have ty: "typeof t = TObject" using sh(1) by simp
      from assms d obtain c h1 where c: "clean val h = (Inr c, h1)" and p1: "prefix h h1"
        and st: "stable (length h) (length h1) h1 m c (cleanObject s t)"
        unfolding refines_def by blast
      have len: "length h \<le> length h1" using p1 by (auto simp: prefix_def)
      have same: "lookup h1 a = lookup h a" if "a < length h" for a
        using p1 that by (rule lookup_prefix_below)
      obtain k where k: "keys_count (cleanObject s t) = Some k"
        using keys_count_cleanObject_defined[OF ty tn(1)] by blast
      have hk: "hkeys_count h1 c = Inr k" using stable_deref[OF st] k by (rule deref_keys)
      have arr: "hisArray h1 c = isArray (cleanObject s t)"
        "harray_length h1 c = array_length (cleanObject s t)"
        using stable_deref[OF st] by (rule deref_array)+
      have p01: "prefix h0 h1" using Cons.prems(2) p1 by (rule prefix_order.trans)
      have l1: "lookup h1 newObj = Some (ObjCell acc)" using same Cons.prems(4,5) by simp
      show ?thesis
      proof (cases "0 < k \<or> isArray (cleanObject s t) \<and> 0 < array_length (cleanObject s t)")
        case keep: True
        let ?h2 = "set_prop h1 newObj key c"
        have step: "clean_step s (key, t) pacc = AList.update key (cleanObject s t) pacc"
          using keep k tn ty by (auto simp: clean_step_def Let_def)
        have l2: "lookup ?h2 b = (if b = newObj then Some (ObjCell (AList.update key c acc)) else lookup h1 b)"
          for b using l1 by (rule lookup_set_prop)
        have old: "list_all2 (\<lambda>p q. fst p = fst q \<and> stable (Suc newObj) (length ?h2) ?h2 m (snd p) (snd q)) acc pacc"
          using keep_acc[of ?h2] len l2 same by simp
        have new: "stable (Suc newObj) (length ?h2) ?h2 m c (cleanObject s t)"
          using st
        proof (rule stable_widen)
          show "Suc newObj \<le> length h" using Cons.prems(4) by simp
          show "length h1 \<le> length ?h2" by simp
          show "lookup ?h2 a = lookup h1 a" if "length h \<le> a" for a
            using l2 that Cons.prems(4) by simp
        qed
        have acc2: "list_all2 (\<lambda>p q. fst p = fst q \<and> stable (Suc newObj) (length ?h2) ?h2 m (snd p) (snd q))
            (AList.update key c acc) (AList.update key (cleanObject s t) pacc)"
          using old new by (rule list_all2_update)
        have "prefix h0 ?h2" using p01 Cons.prems(3) by (rule prefix_set_prop)
        from continue[OF this _ _ acc2] len l2
        have "\<exists>h' acc'. for_in clean newObj rest ?h2 = (Inr (), h') \<and> length h \<le> length h' \<and>
          lookup h' newObj = Some (ObjCell acc') \<and>
          list_all2 (\<lambda>p q. fst p = fst q \<and> stable (Suc newObj) (length h') h' m (snd p) (snd q))
            acc' (fold (clean_step s) trest (AList.update key (cleanObject s t) pacc))"
          by simp
        then show ?thesis
          using False True c hk keep arr p tp step by simp
      next
        case drop: False
        have step: "clean_step s (key, t) pacc = pacc"
          using drop k tn ty by (auto simp: clean_step_def Let_def)
        have old: "list_all2 (\<lambda>p q. fst p = fst q \<and> stable (Suc newObj) (length h1) h1 m (snd p) (snd q)) acc pacc"
          using keep_acc[of h1] len same by simp
        from continue[OF p01 len l1 old]
        show ?thesis
          using False True c hk drop arr p tp step by auto
      qed
    next
      case scalar: False
      then have ty: "typeof t \<noteq> TObject" using sh(1) by simp
      have noref: "\<forall>a. val \<noteq> HRef a" using scalar by auto
      show ?thesis
      proof (cases "val = HStr ''''")
        case True
        then have "t = JStr ''''" using sh(4) by simp
        then have "clean_step s (key, t) pacc = pacc" by (simp add: clean_step_def)
        then show ?thesis
          using True p tp continue[OF Cons.prems(2) le_refl Cons.prems(5,6)] by auto
      next
        case nonempty: False
        then have ne: "t \<noteq> JStr ''''" using sh(4) by simp
        let ?h2 = "set_prop h newObj key val"
        have step: "clean_step s (key, t) pacc = AList.update key t pacc"
          using ne tn ty by (auto simp: clean_step_def)
        have l2: "lookup ?h2 b = (if b = newObj then Some (ObjCell (AList.update key val acc)) else lookup h b)"
          for b using Cons.prems(5) by (rule lookup_set_prop)
        have old: "list_all2 (\<lambda>p q. fst p = fst q \<and> stable (Suc newObj) (length ?h2) ?h2 m (snd p) (snd q)) acc pacc"
          using keep_acc[of ?h2] l2 by simp
        have new: "stable (Suc newObj) (length ?h2) ?h2 m val t"
          using noref d by (rule stable_scalar)
        have acc2: "list_all2 (\<lambda>p q. fst p = fst q \<and> stable (Suc newObj) (length ?h2) ?h2 m (snd p) (snd q))
            (AList.update key val acc) (AList.update key t pacc)"
          using old new by (rule list_all2_update)
        have "prefix h0 ?h2" using Cons.prems(2,3) by (rule prefix_set_prop)
        from continue[OF this _ _ acc2] l2
        have "\<exists>h' acc'. for_in clean newObj rest ?h2 = (Inr (), h') \<and> length h \<le> length h' \<and>
          lookup h' newObj = Some (ObjCell acc') \<and>
          list_all2 (\<lambda>p q. fst p = fst q \<and> stable (Suc newObj) (length h') h' m (snd p) (snd q))
            acc' (fold (clean_step s) trest (AList.update key t pacc))"
          by simp
        then show ?thesis
          using False scalar nonempty p tp step by simp
      qed
    qed
  qed
qed

lemma cleanObject_scalar: "typeof t \<noteq> TObject \<or> t = JNull \<Longrightarrow> cleanObject s t = t"
  by (cases t) simp_all

lemma cleanObjectH_scalar:
  "\<forall>a. x \<noteq> HRef a \<Longrightarrow> cleanObjectH s (Suc n) x h = (Inr x, h)"
  by (cases x) simp_all

lemma cleanObjectH_refines:
  assumes "filterOutEmptyFields s"
  shows "refines s m (cleanObjectH s (Suc m))"
proof (induction m)
  case 0
  show ?case
    unfolding refines_def
  proof (intro allI impI)
    fix x h t assume d: "deref 0 h x = Some t"
    then have noref: "\<forall>a. x \<noteq> HRef a" by (cases x) auto
    then have "cleanObject s t = t" using deref_shape(5)[OF d] by (auto intro: cleanObject_scalar)
    moreover have "stable (length h) (length h) h 0 x t" using noref d by (rule stable_scalar)
    ultimately show "\<exists>r h'. cleanObjectH s (Suc 0) x h = (Inr r, h') \<and> prefix h h' \<and>
        stable (length h) (length h') h' 0 r (cleanObject s t)"
      using cleanObjectH_scalar[OF noref] by auto
  qed
next
  case (Suc m)
  note IH = Suc
  show ?case
    unfolding refines_def
  proof (intro allI impI)
    fix x h t assume d: "deref (Suc m) h x = Some t"
    show "\<exists>r h'. cleanObjectH s (Suc (Suc m)) x h = (Inr r, h') \<and> prefix h h' \<and>
        stable (length h) (length h') h' (Suc m) r (cleanObject s t)"
    proof (cases "\<exists>a. x = HRef a")
      case False
      then have noref: "\<forall>a. x \<noteq> HRef a" by simp
      then have "cleanObject s t = t" using deref_shape(5)[OF d] by (auto intro: cleanObject_scalar)
      moreover have "stable (length h) (length h) h (Suc m) x t" using noref d by (rule stable_scalar)
      ultimately show ?thesis using cleanObjectH_scalar[OF noref] by auto
    next
      case True
      then obtain a where x: "x = HRef a" by blast
      from d x obtain c where c: "lookup h a = Some c" by (auto split: option.splits)
      have fr: "prefix h (snd (cleanObjectH s (Suc (Suc m)) x h))"
        using cleanObjectH_frame[of s "Suc (Suc m)" x] unfolding frame_def by blast
      show ?thesis
      proof (cases c)
        case (ArrCell items)
        from d x c ArrCell obtain ts where ts: "those (map (deref m h) items) = Some ts"
          and t: "t = JArr ts" by auto
        have rel: "list_all2 (\<lambda>v t. deref m h v = Some t) items ts"
          using ts by (simp add: those_map_iff)
        from filter_loop_refines[OF IH rel prefix_order.refl]
        obtain kept h1 where f: "filter_loop (filter_cb (cleanObjectH s (Suc m))) items h = (Inr kept, h1)"
          and p1: "prefix h h1"
          and k: "list_all2 (\<lambda>v t. deref m h v = Some t) kept (filter (filter_pred s) ts)"
          by blast
        let ?h2 = "h1 @ [ArrCell kept]"
        have p2: "prefix h ?h2" using p1 by (meson prefix_order.trans prefixI)
        from map_loop_refines[OF IH k p2]
        obtain mapped h3 where mp: "map_loop (map_cb (cleanObjectH s (Suc m))) kept ?h2 = (Inr mapped, h3)"
          and p3: "prefix ?h2 h3"
          and st: "list_all2 (\<lambda>v t. stable (length ?h2) (length h3) h3 m v (map_fn s t))
              mapped (filter (filter_pred s) ts)"
          by blast
        let ?h4 = "h3 @ [ArrCell mapped]"
        have run: "cleanObjectH s (Suc (Suc m)) x h = (Inr (HRef (length h3)), ?h4)"
          using assms x c ArrCell f mp by (simp add: alloc_def)
        have len: "length h \<le> length ?h2" "length ?h2 \<le> length h3"
          using p2 p3 by (auto dest: prefix_length_le)
        have "stable (length h) (length ?h4) ?h4 (Suc m) (HRef (length h3)) (cleanObject s t)"
          unfolding stable_def
        proof (intro allI impI)
          fix g assume ag: "\<forall>b. length h \<le> b \<and> b < length ?h4 \<longrightarrow> lookup g b = lookup ?h4 b"
          have cell: "lookup g (length h3) = Some (ArrCell mapped)"
            using ag len by (simp add: lookup_def)
          have "list_all2 (\<lambda>v t. deref m g v = Some (map_fn s t)) mapped (filter (filter_pred s) ts)"
            using st
          proof (rule list_all2_mono)
            fix v u assume "stable (length ?h2) (length h3) h3 m v (map_fn s u)"
            moreover have "\<forall>b. length ?h2 \<le> b \<and> b < length h3 \<longrightarrow> lookup g b = lookup h3 b"
              using ag len by (auto simp: lookup_def nth_append)
            ultimately show "deref m g v = Some (map_fn s u)" by (simp add: stable_def)
          qed
          then have "those (map (deref m g) mapped) = Some (map (map_fn s) (filter (filter_pred s) ts))"
            by (simp add: those_map_iff list_all2_map2)
          then show "deref (Suc m) g (HRef (length h3)) = Some (cleanObject s t)"
            using cell t assms by (simp add: cleanObject_JArr_step del: cleanObject.simps)
        qed
        then show ?thesis using run fr by auto
      next
        case (ObjCell props)
        let ?f = "\<lambda>p. map_option (Pair (fst p)) (deref m h (snd p))"
        from d x c ObjCell obtain tprops where tp: "those (map ?f props) = Some tprops"
          and t: "t = JObj tprops" by auto
        have "list_all2 (\<lambda>p q. ?f p = Some q) props tprops"
          using tp by (simp add: those_map_iff)
        then have rel: "list_all2 (\<lambda>p q. fst p = fst q \<and> deref m h (snd p) = Some (snd q)) props tprops"
          by (rule list_all2_mono) auto
        let ?h1 = "h @ [ObjCell []]"
        have "\<exists>h' acc'. for_in (cleanObjectH s (Suc m)) (length h) props ?h1 = (Inr (), h') \<and>
            length ?h1 \<le> length h' \<and> lookup h' (length h) = Some (ObjCell acc') \<and>
            list_all2 (\<lambda>p q. fst p = fst q \<and> stable (Suc (length h)) (length h') h' m (snd p) (snd q))
              acc' (fold (clean_step s) tprops [])"
          by (rule for_in_refines[OF IH rel]) (simp_all add: lookup_def)
        then obtain h' acc' where l: "for_in (cleanObjectH s (Suc m)) (length h) props ?h1 = (Inr (), h')"
          and len: "length ?h1 \<le> length h'"
          and cell: "lookup h' (length h) = Some (ObjCell acc')"
          and st: "list_all2 (\<lambda>p q. fst p = fst q \<and> stable (Suc (length h)) (length h') h' m (snd p) (snd q))
              acc' (fold (clean_step s) tprops [])"
          by blast
        have run: "cleanObjectH s (Suc (Suc m)) x h = (Inr (HRef (length h)), h')"
          using assms x c ObjCell l by (simp add: alloc_def)
        have "stable (length h) (length h') h' (Suc m) (HRef (length h)) (cleanObject s t)"
          unfolding stable_def
        proof (intro allI impI)
          fix g assume ag: "\<forall>b. length h \<le> b \<and> b < length h' \<longrightarrow> lookup g b = lookup h' b"
          have cell': "lookup g (length h) = Some (ObjCell acc')"
            using ag len cell by simp
          have "list_all2 (\<lambda>p q. map_option (Pair (fst p)) (deref m g (snd p)) = Some q)
              acc' (fold (clean_step s) tprops [])"
            using st
          proof (rule list_all2_mono)
            fix p q assume "fst p = fst q \<and> stable (Suc (length h)) (length h') h' m (snd p) (snd q)"
            moreover have "\<forall>b. Suc (length h) \<le> b \<and> b < length h' \<longrightarrow> lookup g b = lookup h' b"
              using ag by simp
            ultimately have "fst p = fst q \<and> deref m g (snd p) = Some (snd q)"
              by (simp add: stable_def)
            then show "map_option (Pair (fst p)) (deref m g (snd p)) = Some q"
              by (cases q) auto
          qed
          then have "those (map (\<lambda>p. map_option (Pair (fst p)) (deref m g (snd p))) acc')
              = Some (fold (clean_step s) tprops [])"
            by (simp add: those_map_iff)
          then show "deref (Suc m) g (HRef (length h)) = Some (cleanObject s t)"
            using cell' t assms by (simp add: cleanObject_JObj_step del: cleanObject.simps)
        qed
        then show ?thesis using run fr by auto
      qed
    qed
  qed
qed

text \<open>
  On an argument that denotes a tree, with a stack one frame deeper than the tree,
  \<open>cleanObject\<close> on the heap returns, and what it returns denotes the tree that
  \<open>cleanObject\<close> on plain data computes.
\<close>

theorem cleanObjectH_cleanObject:
  assumes "deref m h x = Some t"
  shows "\<exists>r h'. cleanObjectH s (Suc m) x h = (Inr r, h') \<and> deref m h' r = Some (cleanObject s t)"
proof (cases "filterOutEmptyFields s")
  case True
  then show ?thesis
    using cleanObjectH_refines[OF True, of m] assms
    unfolding refines_def by (meson stable_deref)
next
  case False
  then show ?thesis using assms by (simp add: cleanObject_disabled)
qed

section \<open>Properties of the reporter\<close>

subsection \<open>The code renders the report of the specification\<close>

lemma seq_emit [simp]: "seq (emit ev # rest) = (ev # fst (seq rest), snd (seq rest))"
  by (simp add: emit_def split: prod.splits)

lemma seq_ok [simp]: "seq ((out, None) # rest) = (out @ fst (seq rest), snd (seq rest))"
  by (simp split: prod.splits)

lemma seq_skip [simp]: "seq (skip # rest) = seq rest"
  by (simp add: skip_def split: prod.splits)

lemma seq_append_ok:
  "seq rs = (out, None) \<Longrightarrow> seq (rs @ rest) = (out @ fst (seq rest), snd (seq rest))"
proof (induction rs arbitrary: out)
  case Nil
  then show ?case by simp
next
  case (Cons r rs)
  obtain o1 e1 where r: "r = (o1, e1)" by (cases r)
  show ?case
  proof (cases e1)
    case None
    with Cons r show ?thesis by (auto split: prod.splits)
  next
    case (Some e)
    with Cons.prems r show ?thesis by simp
  qed
qed

lemma get_prop_defined:
  "v \<noteq> JNull \<Longrightarrow> v \<noteq> JUndefined \<Longrightarrow> get_prop v key = Inr (field v key)"
  by (cases v) (simp_all add: field_def)

lemma section_lines_defined:
  assumes "get_path cleaned path = Inr v" and "v \<noteq> JNull" and "v \<noteq> JUndefined"
  shows "seq (section_lines cleaned path @ rest) = (expected_lines v @ fst (seq rest), snd (seq rest))"
proof -
  have "get_path cleaned (path @ [key]) = Inr (field v key)" for key
    using assms
  proof (induction path arbitrary: cleaned)
    case Nil
    then show ?case by (simp add: get_prop_defined)
  next
    case (Cons k ks)
    then show ?case by (auto split: sum.splits)
  qed
  then show ?thesis
    by (simp add: section_lines_def log_expr_def expected_lines_def)
qed

lemma truthy_defined: "truthy v \<Longrightarrow> v \<noteq> JNull \<and> v \<noteq> JUndefined"
  by (cases v) simp_all

lemma section_group_expected:
  "section_group label css name (JObj ps) = (expected_section label css (field (JObj ps) name), None)"
proof -
  let ?v = "field (JObj ps) name"
  have g: "get_prop (JObj ps) name = Inr ?v" by (rule get_prop_defined) simp_all
  show ?thesis
  proof (cases "truthy ?v")
    case True
    have "get_path (JObj ps) [name] = Inr ?v" using g by simp
    then show ?thesis
      using True g truthy_defined[OF True]
      by (simp add: section_group_def expected_section_def section_lines_defined del: get_prop.simps get_path.simps)
  next
    case False
    then show ?thesis using g by (simp add: section_group_def expected_section_def skip_def del: get_prop.simps)
  qed
qed

lemma chat_log_group_expected:
  "chat_log_group (JObj ps) = (expected_chat_log (field (JObj ps) ''chat_log''), None)"
  by (simp add: chat_log_group_def expected_chat_log_def get_prop_defined log_expr_def skip_def
      del: get_prop.simps)

lemma seq_map_ok:
  assumes "\<And>x. x \<in> set xs \<Longrightarrow> f x = (g x, None)"
  shows "seq (map f xs @ rest) = (concat (map g xs) @ fst (seq rest), snd (seq rest))"
  using assms by (induction xs) simp_all

lemma falsy_no_keys: "\<not> truthy v \<Longrightarrow> for_in_keys v = []"
  by (cases v) (simp_all add: for_in_keys_def)

lemma object_keys_defined:
  "v \<noteq> JNull \<Longrightarrow> v \<noteq> JUndefined \<Longrightarrow> object_keys v = Inr (for_in_keys v)"
  by (cases v) (simp_all add: for_in_keys_def)

lemma keyed_groups_expected:
  assumes "members_defined (field (JObj ps) name)"
  shows "keyed_groups label css item_label name (JObj ps) =
    (expected_keyed label css item_label (field (JObj ps) name), None)"
proof -
  let ?v = "field (JObj ps) name"
  have g: "get_prop (JObj ps) name = Inr ?v" by (rule get_prop_defined) simp_all
  show ?thesis
  proof (cases "truthy ?v")
    case False
    then show ?thesis
      using g by (simp add: keyed_groups_def expected_keyed_def falsy_no_keys skip_def del: get_prop.simps)
  next
    case True
    note d = truthy_defined[OF True]
    have ks: "object_keys ?v = Inr (for_in_keys ?v)" using d by (simp add: object_keys_defined)
    show ?thesis
    proof (cases "for_in_keys ?v = []")
      case True
      then show ?thesis
        using g ks \<open>truthy ?v\<close>
        by (simp add: keyed_groups_def expected_keyed_def skip_def del: get_prop.simps)
    next
      case False
      have inner: "seq ([emit (ConsoleGroup [AStr (item_label @ id)])]
                       @ section_lines (JObj ps) [name, id] @ [emit ConsoleGroupEnd])
          = (ConsoleGroup [AStr (item_label @ id)] # expected_lines (field ?v id) @ [ConsoleGroupEnd], None)"
        if "id \<in> set (for_in_keys ?v)" for id
      proof -
        have "get_prop ?v id = Inr (field ?v id)" using d by (simp add: get_prop_defined)
        then have "get_path (JObj ps) [name, id] = Inr (field ?v id)"
          using g by (simp del: get_prop.simps)
        moreover have "field ?v id \<noteq> JNull" "field ?v id \<noteq> JUndefined"
          using assms that by (auto simp: members_defined_def)
        ultimately show ?thesis
          by (simp add: section_lines_defined del: get_prop.simps get_path.simps)
      qed
      let ?F = "\<lambda>id. seq ([emit (ConsoleGroup [AStr (item_label @ id)])]
                       @ section_lines (JObj ps) [name, id] @ [emit ConsoleGroupEnd])"
      let ?G = "\<lambda>id. ConsoleGroup [AStr (item_label @ id)]
                       # expected_lines (field ?v id) @ [ConsoleGroupEnd]"
      let ?rest = "[emit ConsoleGroupEnd]"
      have "seq (map ?F (for_in_keys ?v) @ ?rest)
          = (concat (map ?G (for_in_keys ?v)) @ fst (seq ?rest), snd (seq ?rest))"
        by (rule seq_map_ok) (rule inner)
      then show ?thesis
        using g ks \<open>truthy ?v\<close> False
        by (simp add: keyed_groups_def expected_keyed_def del: get_prop.simps)
    qed
  qed
qed

lemma cleaned_props_kept:
  assumes "filterOutEmptyFields s" and "cleanObject s x = JObj cps" and "p \<in> set cps"
  shows "kept_value s (snd p)"
proof -
  from assms(2) obtain props where x: "x = JObj props" by (cases x) (auto split: if_splits)
  have "cps = fold (clean_step s) props []"
    using assms(1,2) x by (simp add: cleanObject_JObj_step del: cleanObject.simps)
  moreover have "\<forall>q \<in> set (fold (clean_step s) props []). kept_value s (snd q)"
    using fold_clean_step_inv[of props s "[]"] by (simp add: cleanObject_fixed)
  ultimately show ?thesis using assms(3) by blast
qed

lemma cleaned_items_defined:
  assumes "filterOutEmptyFields s" and "cleanObject s x = JArr cs" and "v \<in> set cs"
  shows "v \<noteq> JNull \<and> v \<noteq> JUndefined"
proof -
  from assms(2) obtain items where x: "x = JArr items" by (cases x) (auto split: if_splits)
  from assms x obtain y where "y \<noteq> JNull" "y \<noteq> JUndefined"
    "v = (if typeof y = TObject then cleanObject s y else y)"
    by (auto split: if_splits)
  then show ?thesis
    by (auto simp: cleanObject_eq_JNull cleanObject_eq_JUndefined)
qed

lemma index_of_key_Some: "index_of_key key n = Some i \<Longrightarrow> i < n"
  by (auto simp: index_of_key_def find_Some_iff)

lemma index_of_key_show: "i < n \<Longrightarrow> \<exists>j. index_of_key (show_nat i) n = Some j"
  by (cases "index_of_key (show_nat i) n") (auto simp: index_of_key_def find_None_iff)

lemma kept_members_defined:
  assumes "filterOutEmptyFields s" and "kept_value s v"
  shows "members_defined v"
proof (cases v)
  case (JObj ps)
  then have fixed: "cleanObject s v = JObj ps" using assms(2) by (simp add: kept_value_def)
  show ?thesis
    unfolding members_defined_def
  proof
    fix id assume "id \<in> set (for_in_keys v)"
    then have "id \<in> fst ` set ps" using JObj by (simp add: for_in_keys_def)
    then obtain w where w: "map_of ps id = Some w"
      by (metis domD dom_map_of_conv_image_fst)
    then have "(id, w) \<in> set ps" by (rule map_of_SomeD)
    then have "kept_value s w" using cleaned_props_kept[OF assms(1) fixed] by fastforce
    then show "field v id \<noteq> JNull \<and> field v id \<noteq> JUndefined"
      using JObj w by (simp add: field_def kept_value_def)
  qed
next
  case (JArr xs)
  then have fixed: "cleanObject s v = JArr xs" using assms(2) by (simp add: kept_value_def)
  show ?thesis
    unfolding members_defined_def
  proof
    fix id assume "id \<in> set (for_in_keys v)"
    then obtain i where i: "i < length xs" "id = show_nat i"
      using JArr by (auto simp: for_in_keys_def)
    then obtain j where j: "index_of_key id (length xs) = Some j"
      using index_of_key_show by blast
    then have "xs ! j \<in> set xs" using index_of_key_Some by fastforce
    then show "field v id \<noteq> JNull \<and> field v id \<noteq> JUndefined"
      using JArr j cleaned_items_defined[OF assms(1) fixed] by (simp add: field_def)
  qed
next
  case (JStr str)
  show ?thesis
    unfolding members_defined_def
  proof
    fix id assume "id \<in> set (for_in_keys v)"
    then obtain i where i: "i < length str" "id = show_nat i"
      using JStr by (auto simp: for_in_keys_def)
    then obtain j where j: "index_of_key id (length str) = Some j"
      using index_of_key_show by blast
    then show "field v id \<noteq> JNull \<and> field v id \<noteq> JUndefined"
      using JStr by (simp add: field_def)
  qed
qed (simp_all add: members_defined_def for_in_keys_def)

lemma field_cleaned_members:
  assumes "filterOutEmptyFields s" and "cleanObject s x = JObj cps"
  shows "members_defined (field (JObj cps) name)"
proof (cases "map_of cps name")
  case None
  then show ?thesis by (simp add: field_def members_defined_def for_in_keys_def)
next
  case (Some v)
  then have "(name, v) \<in> set cps" by (rule map_of_SomeD)
  then have "kept_value s v" using cleaned_props_kept[OF assms] by fastforce
  then have "members_defined v" using assms(1) by (simp add: kept_members_defined)
  then show ?thesis using Some by (simp add: field_def)
qed

lemma verbose_sections_expected:
  assumes "members_defined (field (JObj ps) ''other_chars_prompt'')"
    and "members_defined (field (JObj ps) ''plugin_prompts'')"
  shows "verbose_sections (JObj ps) =
    (expected_section ''%cCharacter Prompt'' ''color: #2196F3; font-weight: bold;''
               (field (JObj ps) ''char_prompt'')
           @ expected_section ''%cUser Prompt'' ''color: #FF9800; font-weight: bold;''
               (field (JObj ps) ''user_prompt'')
           @ expected_section ''%cWorld Prompt'' ''color: #9C27B0; font-weight: bold;''
               (field (JObj ps) ''world_prompt'')
           @ expected_keyed ''%cOther Characters Prompts'' ''color: #E91E63; font-weight: bold;''
               ''Character ID: '' (field (JObj ps) ''other_chars_prompt'')
           @ expected_keyed ''%cPlugin Prompts'' ''color: #00BCD4; font-weight: bold;''
               ''Plugin ID: '' (field (JObj ps) ''plugin_prompts'')
           @ expected_chat_log (field (JObj ps) ''chat_log''), None)"
  unfolding verbose_sections_def
  by (simp only: section_group_expected chat_log_group_expected keyed_groups_expected[OF assms(1)]
      keyed_groups_expected[OF assms(2)] seq_ok seq.simps fst_conv snd_conv append_Nil2 append_assoc)

text \<open>
  For a structure that is an object, with filtering enabled or verbose mode off, no
  step of the reporter throws and its output is the report of the specification.
\<close>

lemma logPromptStruct_expected:
  assumes "enabled s" and "filterOutEmptyFields s \<or> \<not> verboseLogging s"
    and "deep_copy h promptStruct = Inr (JObj props)"
  shows "logPromptStruct s now h promptStruct chatId =
    expected_report s now chatId (cleanObject s (JObj props))"
proof -
  obtain cps where cps: "cleanObject s (JObj props) = JObj cps" by (cases "filterOutEmptyFields s") simp_all
  show ?thesis
  proof (cases "verboseLogging s")
    case False
    then show ?thesis
      using assms(1,3)
      by (simp add: logPromptStruct_def logPromptStruct_try_def expected_report_def del: cleanObject.simps)
  next
    case True
    then have f: "filterOutEmptyFields s" using assms(2) by simp
    have "verbose_sections (JObj cps) = (expected_section ''%cCharacter Prompt'' ''color: #2196F3; font-weight: bold;''
               (field (JObj cps) ''char_prompt'')
           @ expected_section ''%cUser Prompt'' ''color: #FF9800; font-weight: bold;''
               (field (JObj cps) ''user_prompt'')
           @ expected_section ''%cWorld Prompt'' ''color: #9C27B0; font-weight: bold;''
               (field (JObj cps) ''world_prompt'')
           @ expected_keyed ''%cOther Characters Prompts'' ''color: #E91E63; font-weight: bold;''
               ''Character ID: '' (field (JObj cps) ''other_chars_prompt'')
           @ expected_keyed ''%cPlugin Prompts'' ''color: #00BCD4; font-weight: bold;''
               ''Plugin ID: '' (field (JObj cps) ''plugin_prompts'')
           @ expected_chat_log (field (JObj cps) ''chat_log''), None)"
      by (intro verbose_sections_expected field_cleaned_members[OF f cps])
    then show ?thesis
      using assms(1,3) True cps
      by (simp add: logPromptStruct_def logPromptStruct_try_def expected_report_def Let_def
          del: cleanObject.simps)
  qed
qed

subsection \<open>Failures\<close>

lemma logPromptStruct_copy_failure:
  assumes "enabled s" and "deep_copy h promptStruct = Inl e"
  shows "logPromptStruct s now h promptStruct chatId =
     [ConsoleError [AStr ''Error in Prompt Debugger plugin:'', AErr e]]"
  using assms by (simp add: logPromptStruct_def logPromptStruct_try_def throw_def)

text \<open>
  Claim C7, as the code has it. The reporter never propagates an exception: whatever
  is thrown inside it is caught and logged as one error line that carries the
  exception, after the lines already written. When reporting is enabled and the deep
  copy fails (a cyclic structure, for one), the error line is the whole output: no
  report body, no group left open. The console after such an invocation and a second
  one, on a structurally valid object with filtering enabled or verbose mode off, holds
  the error line followed by the complete report of the second structure.
\<close>

theorem logPromptStruct_catches_failures:
  "(logPromptStruct_try s now h promptStruct chatId = (out, Some e) \<longrightarrow>
      logPromptStruct s now h promptStruct chatId
        = out @ [ConsoleError [AStr ''Error in Prompt Debugger plugin:'', AErr e]]) \<and>
   (enabled s \<and> deep_copy h promptStruct = Inl e \<longrightarrow>
      logPromptStruct s now h promptStruct chatId
        = [ConsoleError [AStr ''Error in Prompt Debugger plugin:'', AErr e]] \<and>
      (enabled s' \<and> (filterOutEmptyFields s' \<or> \<not> verboseLogging s') \<and>
       deep_copy h' promptStruct' = Inr (JObj props') \<and> plain_data (JObj props') \<longrightarrow>
         logPromptStruct s now h promptStruct chatId @ logPromptStruct s' now' h' promptStruct' chatId'
           = [ConsoleError [AStr ''Error in Prompt Debugger plugin:'', AErr e]]
             @ expected_report s' now' chatId' (cleanObject s' (JObj props'))))"
proof (intro conjI impI)
  assume "logPromptStruct_try s now h promptStruct chatId = (out, Some e)"
  then show "logPromptStruct s now h promptStruct chatId
      = out @ [ConsoleError [AStr ''Error in Prompt Debugger plugin:'', AErr e]]"
    by (simp add: logPromptStruct_def)
next
  assume "enabled s \<and> deep_copy h promptStruct = Inl e"
  then show "logPromptStruct s now h promptStruct chatId
      = [ConsoleError [AStr ''Error in Prompt Debugger plugin:'', AErr e]]"
    by (simp add: logPromptStruct_copy_failure)
next
  assume "enabled s \<and> deep_copy h promptStruct = Inl e"
    and "enabled s' \<and> (filterOutEmptyFields s' \<or> \<not> verboseLogging s') \<and>
       deep_copy h' promptStruct' = Inr (JObj props') \<and> plain_data (JObj props')"
  then show "logPromptStruct s now h promptStruct chatId @ logPromptStruct s' now' h' promptStruct' chatId'
           = [ConsoleError [AStr ''Error in Prompt Debugger plugin:'', AErr e]]
             @ expected_report s' now' chatId' (cleanObject s' (JObj props'))"
    by (simp add: logPromptStruct_copy_failure logPromptStruct_expected del: cleanObject.simps)
qed

text \<open>
  The object that holds itself, then the object \<open>{chat_log: ["hi"], note: ""}\<close>,
  under the default settings: the first call writes the error line alone, the second
  the report of \<open>{chat_log: ["hi"]}\<close>.
\<close>

theorem logPromptStruct_catches_failures_witness:
  "enabled defaultSettings \<and> filterOutEmptyFields defaultSettings \<and>
   logPromptStruct_try defaultSettings ''2024-01-01T00:00:00.000Z''
       [ObjCell [(''self'', HRef 0)]] (HRef 0) (HStr ''chat'')
     = ([], Some (TypeError ''Converting circular structure to JSON'')) \<and>
   deep_copy [ObjCell [(''self'', HRef 0)]] (HRef 0)
     = Inl (TypeError ''Converting circular structure to JSON'') \<and>
   logPromptStruct defaultSettings ''2024-01-01T00:00:00.000Z''
       [ObjCell [(''self'', HRef 0)]] (HRef 0) (HStr ''chat'')
     = [ConsoleError [AStr ''Error in Prompt Debugger plugin:'',
          AErr (TypeError ''Converting circular structure to JSON'')]] \<and>
   deep_copy [ObjCell [(''chat_log'', HRef 1), (''note'', HStr '''')], ArrCell [HStr ''hi'']] (HRef 0)
     = Inr (JObj [(''chat_log'', JArr [JStr ''hi'']), (''note'', JStr '''')]) \<and>
   plain_data (JObj [(''chat_log'', JArr [JStr ''hi'']), (''note'', JStr '''')]) \<and>
   logPromptStruct defaultSettings ''2024-01-01T00:00:00.000Z''
       [ObjCell [(''self'', HRef 0)]] (HRef 0) (HStr ''chat'')
     @ logPromptStruct defaultSettings ''2024-01-01T00:00:01.000Z''
       [ObjCell [(''chat_log'', HRef 1), (''note'', HStr '''')], ArrCell [HStr ''hi'']] (HRef 0) (HStr ''chat'')
     = [ConsoleError [AStr ''Error in Prompt Debugger plugin:'',
          AErr (TypeError ''Converting circular structure to JSON'')],
        ConsoleGroup [ATemplate ''%cPrompt Structure (Chat ID: '' (HStr ''chat'') '')'',
          AStr ''color: #4CAF50; font-weight: bold; font-size: 16px;''],
        ConsoleLog [AStr ''%cTimestamp: 2024-01-01T00:00:01.000Z'', AStr ''color: #999999;''],
        ConsoleLog [AStr ''Full Prompt Structure:'', AVal (JObj [(''chat_log'', JArr [JStr ''hi''])])],
        ConsoleGroupEnd]"
proof -
  have 0: "logPromptStruct_try defaultSettings ''2024-01-01T00:00:00.000Z''
       [ObjCell [(''self'', HRef 0)]] (HRef 0) (HStr ''chat'')
     = ([], Some (TypeError ''Converting circular structure to JSON''))"
    by (simp add: logPromptStruct_try_def deep_copy_def throw_def defaultSettings_def)
  have 1: "deep_copy [ObjCell [(''self'', HRef 0)]] (HRef 0)
     = Inl (TypeError ''Converting circular structure to JSON'')"
    by (simp add: deep_copy_def)
  have 2: "deep_copy [ObjCell [(''chat_log'', HRef 1), (''note'', HStr '''')], ArrCell [HStr ''hi'']] (HRef 0)
     = Inr (JObj [(''chat_log'', JArr [JStr ''hi'']), (''note'', JStr '''')])"
    by (simp add: deep_copy_def)
  have 3: "enabled defaultSettings" "filterOutEmptyFields defaultSettings"
    "plain_data (JObj [(''chat_log'', JArr [JStr ''hi'']), (''note'', JStr '''')])"
    by (simp_all add: defaultSettings_def)
  note T = logPromptStruct_catches_failures[of defaultSettings "''2024-01-01T00:00:00.000Z''"
        "[ObjCell [(''self'', HRef 0)]]" "HRef 0" "HStr ''chat''" "[]"
        "TypeError ''Converting circular structure to JSON''" defaultSettings
        "[ObjCell [(''chat_log'', HRef 1), (''note'', HStr '''')], ArrCell [HStr ''hi'']]" "HRef 0"
        "[(''chat_log'', JArr [JStr ''hi'']), (''note'', JStr '''')]"
        "''2024-01-01T00:00:01.000Z''" "HStr ''chat''"]
  have 4: "logPromptStruct defaultSettings ''2024-01-01T00:00:00.000Z''
       [ObjCell [(''self'', HRef 0)]] (HRef 0) (HStr ''chat'')
     = [ConsoleError [AStr ''Error in Prompt Debugger plugin:'',
          AErr (TypeError ''Converting circular structure to JSON'')]]"
    using T 0 by simp
  have 5: "logPromptStruct defaultSettings ''2024-01-01T00:00:00.000Z''
       [ObjCell [(''self'', HRef 0)]] (HRef 0) (HStr ''chat'')
     @ logPromptStruct defaultSettings ''2024-01-01T00:00:01.000Z''
       [ObjCell [(''chat_log'', HRef 1), (''note'', HStr '''')], ArrCell [HStr ''hi'']] (HRef 0) (HStr ''chat'')
     = [ConsoleError [AStr ''Error in Prompt Debugger plugin:'',
          AErr (TypeError ''Converting circular structure to JSON'')]]
       @ expected_report defaultSettings ''2024-01-01T00:00:01.000Z'' (HStr ''chat'')
           (cleanObject defaultSettings (JObj [(''chat_log'', JArr [JStr ''hi'']), (''note'', JStr '''')]))"
    using T 1 2 3 by blast
  have 6: "expected_report defaultSettings ''2024-01-01T00:00:01.000Z'' (HStr ''chat'')
           (cleanObject defaultSettings (JObj [(''chat_log'', JArr [JStr ''hi'']), (''note'', JStr '''')]))
     = [ConsoleGroup [ATemplate ''%cPrompt Structure (Chat ID: '' (HStr ''chat'') '')'',
          AStr ''color: #4CAF50; font-weight: bold; font-size: 16px;''],
        ConsoleLog [AStr ''%cTimestamp: 2024-01-01T00:00:01.000Z'', AStr ''color: #999999;''],
        ConsoleLog [AStr ''Full Prompt Structure:'', AVal (JObj [(''chat_log'', JArr [JStr ''hi''])])],
        ConsoleGroupEnd]"
    by (simp add: expected_report_def defaultSettings_def)
  show ?thesis
    unfolding 5 6 by (simp only: 0 1 2 3 4 append_Cons append_Nil simp_thms)
qed

text \<open>
  Claim C7 as stated fails where the exception is thrown after the copy. In verbose
  mode with filtering disabled, the structure \<open>{other_chars_prompt: {bob: null}}\<close>
  is copied and its report is begun; reading \<open>.text\<close> of \<open>null\<close> throws inside the
  sub-group of \<open>bob\<close>. The error is caught and logged, but three groups and two lines
  of the report are already on the console, and the groups are never closed.
\<close>

theorem logPromptStruct_partial_report:
  "logPromptStruct (defaultSettings\<lparr>verboseLogging := True, filterOutEmptyFields := False\<rparr>)
     ''2024-01-01T00:00:00.000Z''
     [ObjCell [(''other_chars_prompt'', HRef 1)], ObjCell [(''bob'', HNull)]] (HRef 0) (HStr ''chat'')
   = [ConsoleGroup [ATemplate ''%cPrompt Structure (Chat ID: '' (HStr ''chat'') '')'',
        AStr ''color: #4CAF50; font-weight: bold; font-size: 16px;''],
      ConsoleLog [AStr ''%cTimestamp: 2024-01-01T00:00:00.000Z'', AStr ''color: #999999;''],
      ConsoleLog [AStr ''Full Prompt Structure:'',
        AVal (JObj [(''other_chars_prompt'', JObj [(''bob'', JNull)])])],
      ConsoleGroup [AStr ''%cOther Characters Prompts'', AStr ''color: #E91E63; font-weight: bold;''],
      ConsoleGroup [AStr ''Character ID: bob''],
      ConsoleError [AStr ''Error in Prompt Debugger plugin:'',
        AErr (TypeError ''Cannot read properties of null'')]]"
  by (simp add: logPromptStruct_def logPromptStruct_try_def defaultSettings_def deep_copy_def
      verbose_sections_def section_group_def keyed_groups_def chat_log_group_def section_lines_def
      log_expr_def emit_def skip_def throw_def for_in_keys_def)

text \<open>
  Claim C8, as the code has it: while the extension is enabled, a payload object
  without the field \<open>prompt_struct\<close> makes the handler write exactly one warning line,
  nothing else; no exception is raised or logged and no report is written.
\<close>

theorem on_prompt_ready_missing_field:
  assumes "enabled s" and "lookup h a = Some (ObjCell ps)" and "map_of ps ''prompt_struct'' = None"
  shows "on_prompt_ready s now h (HRef a) =
     [ConsoleWarn [AStr ''Prompt Debugger: No prompt structure available in the payload'']]"
  using assms by (simp add: on_prompt_ready_def)

text \<open>The payload \<open>{chat_id: "chat"}\<close> under the default settings.\<close>

theorem on_prompt_ready_missing_field_witness:
  "enabled defaultSettings \<and>
   lookup [ObjCell [(''chat_id'', HStr ''chat'')]] 0 = Some (ObjCell [(''chat_id'', HStr ''chat'')]) \<and>
   map_of [(''chat_id'', HStr ''chat'')] ''prompt_struct'' = None \<and>
   on_prompt_ready defaultSettings ''2024-01-01T00:00:00.000Z''
     [ObjCell [(''chat_id'', HStr ''chat'')]] (HRef 0)
   = [ConsoleWarn [AStr ''Prompt Debugger: No prompt structure available in the payload'']]"
proof -
  have 1: "enabled defaultSettings" by (simp add: defaultSettings_def)
  have 2: "lookup [ObjCell [(''chat_id'', HStr ''chat'')]] 0 = Some (ObjCell [(''chat_id'', HStr ''chat'')])"
    by (simp add: lookup_def)
  have 3: "map_of [(''chat_id'', HStr ''chat'')] ''prompt_struct'' = None" by simp
  show ?thesis
    using on_prompt_ready_missing_field[OF 1 2 3] 1 2 3 by simp
qed

text \<open>
  Claim C8 as stated fails while the extension is disabled: the handler returns at its
  first test and writes no warning line.
\<close>

theorem on_prompt_ready_missing_field_disabled:
  "on_prompt_ready (defaultSettings\<lparr>enabled := False\<rparr>) ''2024-01-01T00:00:00.000Z''
     [ObjCell [(''chat_id'', HStr ''chat'')]] (HRef 0)
   \<noteq> [ConsoleWarn [AStr ''Prompt Debugger: No prompt structure available in the payload'']]"
  by (simp add: on_prompt_ready_def defaultSettings_def)

subsection \<open>Sub-groups in verbose mode\<close>




lemma group_in_expected_lines [simp]: "ConsoleGroup as \<notin> set (expected_lines v)"
  by (simp add: expected_lines_def)







end
